theory Spec2Isabelle
  imports Complex_Main "HOL-Library.Char_ord" "HOL-Library.List_Lexorder" "HOL-Library.Product_Lexorder"
begin

section \<open>Controller-group resolver of sybil-shield (src/lib/entity.ts)\<close>

text \<open>
  Modelling conventions.
  \<^item> A JavaScript string is a \<open>string\<close>: a list of code units, here the code units
    U+0000 to U+00FF. The order \<open><\<close> on strings is the lexicographic order on code
    units, which is what \<open>a < b\<close> and the default \<open>Array.prototype.sort\<close> use.
  \<^item> A JavaScript \<open>Map\<close> that the code only reads with \<open>get\<close> and writes with
    \<open>set\<close> is a partial function. A \<open>Map\<close> or \<open>Set\<close> that the code iterates is a
    list in insertion order (\<open>jsmap\<close>, \<open>jsset\<close>).
  \<^item> The recursive \<open>find\<close> may fail to return on a cyclic parent map, so it is a
    partial function into \<open>option\<close>: \<open>None\<close> is "does not return". Everything that
    calls it lives in the option monad.
  \<^item> A call \<open>arr.push(...xs)\<close> passes the elements of \<open>xs\<close> as arguments; an engine
    accepts only so many and throws a \<open>RangeError\<close> beyond. The number is a parameter
    \<open>argLimit\<close> of the model, and a function that can throw returns \<open>error + 'a\<close>.
    So a run of \<open>computeControllerGroups\<close> is \<open>None\<close> (it does not return),
    \<open>Some (Inl RangeError)\<close> (it throws) or \<open>Some (Inr result)\<close>.
  \<^item> Scores are JavaScript doubles; they are idealised here as exact rationals.
  \<^item> \<open>new URL(l).hostname\<close> is a platform function: it is a parameter \<open>urlHostname\<close>
    of the model, \<open>None\<close> standing for the \<open>TypeError\<close> that \<open>new URL\<close> throws.
\<close>

subsection \<open>Insertion-ordered sets and maps\<close>

type_synonym 'a jsset = "'a list"
type_synonym ('k, 'v) jsmap = "('k \<times> 'v) list"

definition set_add :: "'a jsset \<Rightarrow> 'a \<Rightarrow> 'a jsset" where
  "set_add s x = (if x \<in> set s then s else s @ [x])"

definition new_set :: "'a list \<Rightarrow> 'a jsset" where
  "new_set xs = fold (\<lambda>x s. set_add s x) xs []"

fun map_set :: "('k, 'v) jsmap \<Rightarrow> 'k \<Rightarrow> 'v \<Rightarrow> ('k, 'v) jsmap" where
  "map_set [] k v = [(k, v)]"
| "map_set ((k', v') # m) k v = (if k' = k then (k, v) # m else (k', v') # map_set m k v)"

definition map_get :: "('k, 'v) jsmap \<Rightarrow> 'k \<Rightarrow> 'v option" where
  "map_get m k = map_of m k"

text \<open>\<open>if (!m.has(k)) m.set(k, new Set()); m.get(k).add(a)\<close>\<close>

definition add_to_set_map :: "('k, 'a jsset) jsmap \<Rightarrow> 'k \<Rightarrow> 'a \<Rightarrow> ('k, 'a jsset) jsmap" where
  "add_to_set_map m k a =
     (case map_get m k of None \<Rightarrow> map_set m k [a] | Some s \<Rightarrow> map_set m k (set_add s a))"

text \<open>\<open>if (!m.has(k)) m.set(k, []); m.get(k).push(a)\<close>\<close>

definition push_to_map :: "('k, 'a list) jsmap \<Rightarrow> 'k \<Rightarrow> 'a \<Rightarrow> ('k, 'a list) jsmap" where
  "push_to_map m k a =
     (case map_get m k of None \<Rightarrow> map_set m k [a] | Some xs \<Rightarrow> map_set m k (xs @ [a]))"

subsection \<open>makeUnionFind\<close>

record unionFind =
  parent :: "string \<rightharpoonup> string"
  size_uf :: "string \<rightharpoonup> nat"

definition makeUnionFind :: "string list \<Rightarrow> unionFind" where
  "makeUnionFind items =
     fold (\<lambda>x u. \<lparr>parent = (parent u)(x \<mapsto> x), size_uf = (size_uf u)(x \<mapsto> 1)\<rparr>) items
       \<lparr>parent = Map.empty, size_uf = Map.empty\<rparr>"

text \<open>
  \<open>find\<close>: \<open>!p\<close> holds when \<open>p\<close> is \<open>undefined\<close> and also when \<open>p\<close> is the empty
  string.
\<close>

partial_function (option) find_uf :: "unionFind \<Rightarrow> string \<Rightarrow> (string \<times> unionFind) option" where
  "find_uf u x =
     (case parent u x of
        None \<Rightarrow> Some (x, u)
      | Some p \<Rightarrow>
          if p = [] then Some (x, u)
          else if p = x then Some (x, u)
          else Option.bind (find_uf u p)
                 (\<lambda>ru. Some (fst ru, (snd ru)\<lparr>parent := (parent (snd ru))(x \<mapsto> fst ru)\<rparr>)))"

declare find_uf.simps [code]

text \<open>\<open>size.get(r) || 1\<close>\<close>

definition size_or_1 :: "unionFind \<Rightarrow> string \<Rightarrow> nat" where
  "size_or_1 u r = (case size_uf u r of None \<Rightarrow> 1 | Some s \<Rightarrow> if s = 0 then 1 else s)"

definition union_uf :: "unionFind \<Rightarrow> string \<Rightarrow> string \<Rightarrow> unionFind option" where
  "union_uf u a b =
     (case find_uf u a of
        None \<Rightarrow> None
      | Some (ra, u1) \<Rightarrow>
          (case find_uf u1 b of
             None \<Rightarrow> None
           | Some (rb, u2) \<Rightarrow>
               if ra = rb then Some u2
               else
                 let sa = size_or_1 u2 ra; sb = size_or_1 u2 rb in
                 if sa < sb
                 then Some \<lparr>parent = (parent u2)(ra \<mapsto> rb), size_uf = (size_uf u2)(rb \<mapsto> sa + sb)\<rparr>
                 else Some \<lparr>parent = (parent u2)(rb \<mapsto> ra), size_uf = (size_uf u2)(ra \<mapsto> sa + sb)\<rparr>))"

text \<open>The root that \<open>find\<close> returns, without the updated structure.\<close>

definition find_root :: "unionFind \<Rightarrow> string \<Rightarrow> string option" where
  "find_root u x = map_option fst (find_uf u x)"

subsection \<open>String helpers\<close>

text \<open>\<open>toLowerCase\<close> on the code units U+0000 to U+00FF.\<close>

definition toLowerChar :: "char \<Rightarrow> char" where
  "toLowerChar c =
     (let n = (of_char c :: nat) in
      if (65 \<le> n \<and> n \<le> 90) \<or> (192 \<le> n \<and> n \<le> 222 \<and> n \<noteq> 215) then char_of (n + 32) else c)"

definition toLowerCase :: "string \<Rightarrow> string" where
  "toLowerCase s = map toLowerChar s"

definition isWhitespace :: "char \<Rightarrow> bool" where
  "isWhitespace c = ((of_char c :: nat) \<in> {9, 10, 11, 12, 13, 32, 160})"

definition trim :: "string \<Rightarrow> string" where
  "trim s = rev (dropWhile isWhitespace (rev (dropWhile isWhitespace s)))"

text \<open>\<open>s.startsWith(p)\<close>\<close>

definition startsWith :: "string \<Rightarrow> string \<Rightarrow> bool" where
  "startsWith s p = (take (length p) s = p)"

text \<open>\<open>s.split(sep)\<close> for a one-character separator, and \<open>parts.join(sep)\<close>.\<close>

fun splitOn :: "char \<Rightarrow> string \<Rightarrow> string list" where
  "splitOn sep [] = [[]]"
| "splitOn sep (c # cs) =
     (if c = sep then [] # splitOn sep cs
      else (case splitOn sep cs of [] \<Rightarrow> [[c]] | p # ps \<Rightarrow> (c # p) # ps))"

fun joinWith :: "string \<Rightarrow> string list \<Rightarrow> string" where
  "joinWith sep [] = []"
| "joinWith sep [p] = p"
| "joinWith sep (p # q # ps) = p @ sep @ joinWith sep (q # ps)"

definition isHexDigit :: "char \<Rightarrow> bool" where
  "isHexDigit c = (c \<in> set ''0123456789abcdefABCDEF'')"

text \<open>A word character of \<open>\b\<close>: \<open>[A-Za-z0-9_]\<close>.\<close>

definition isWordChar :: "char \<Rightarrow> bool" where
  "isWordChar c =
     (c \<in> set ''abcdefghijklmnopqrstuvwxyzABCDEFGHIJKLMNOPQRSTUVWXYZ0123456789_'')"

text \<open>\<open>/^0x[a-fA-F0-9]{40}$/.test(x)\<close>\<close>

definition looksLikeEvmAddress :: "string \<Rightarrow> bool" where
  "looksLikeEvmAddress x =
     (length x = 42 \<and> take 2 x = ''0x'' \<and> list_all isHexDigit (drop 2 x))"

text \<open>
  \<open>/\b0x[a-fA-F0-9]{40}\b/g\<close> at the head of \<open>cs\<close>, the word boundary before it apart:
  the 42 characters, then the end of the text or a character that is not a word character.
\<close>

definition matchHere :: "string \<Rightarrow> bool" where
  "matchHere cs =
     (looksLikeEvmAddress (take 42 cs) \<and>
      (case drop 42 cs of [] \<Rightarrow> True | d # _ \<Rightarrow> \<not> isWordChar d))"

text \<open>
  The \<open>re.exec\<close> loop: \<open>prevWord\<close> says whether the character before the current
  position is a word character (\<open>False\<close> at the start of the text). After a match the scan
  goes on behind it.
\<close>

function scanEvm :: "bool \<Rightarrow> string \<Rightarrow> string list" where
  "scanEvm prevWord [] = []"
| "scanEvm prevWord (c # cs) =
     (if \<not> prevWord \<and> matchHere (c # cs)
      then toLowerCase (take 42 (c # cs)) # scanEvm True (drop 41 cs)
      else scanEvm (isWordChar c) cs)"
  by pat_completeness auto
termination
  by (relation "measure (\<lambda>(p, cs). length cs)") auto

definition extractEvmAddressesFromText :: "string \<Rightarrow> string list" where
  "extractEvmAddressesFromText text = (if text = [] then [] else scanEvm False text)"

text \<open>\<open>hostname.replace(/^www\./, '')\<close>\<close>

definition stripWww :: "string \<Rightarrow> string" where
  "stripWww h = (if startsWith h ''www.'' then drop 4 h else h)"

definition extractDomains :: "(string \<Rightarrow> string option) \<Rightarrow> string list \<Rightarrow> string list" where
  "extractDomains urlHostname links =
     concat (map (\<lambda>l. case urlHostname l of None \<Rightarrow> [] | Some h \<Rightarrow> [toLowerCase (stripWww h)]) links)"

definition COMMON_DOMAINS :: "string list" where
  "COMMON_DOMAINS =
     [''github.com'', ''gist.github.com'', ''raw.githubusercontent.com'', ''twitter.com'',
      ''x.com'', ''talent.app'', ''warpcast.com'', ''farcaster.xyz'', ''t.me'', ''telegram.me'',
      ''discord.gg'', ''discord.com'', ''linktr.ee'', ''medium.com'', ''youtube.com'',
      ''youtu.be'']"

subsection \<open>computeControllerGroups: input, state, evidence\<close>

record input =
  actors :: "string list"
  linksByActor :: "(string, string list) jsmap"
  bioByActor :: "(string, string) jsmap"
  handleStemByActor :: "(string, string) jsmap"
  sharedFundersByWallet :: "(string, string list) jsmap"
  extraWalletsByActor :: "(string, string list) jsmap option"
  minGroupSize :: int

record resolver =
  uf :: unionFind
  evidenceByPair :: "string \<rightharpoonup> string jsset"

text \<open>\<open>a < b ? `${a}||${b}` : `${b}||${a}`\<close>\<close>

definition pairKey :: "string \<Rightarrow> string \<Rightarrow> string" where
  "pairKey a b = (if a < b then a @ ''||'' @ b else b @ ''||'' @ a)"

definition reasonsOf :: "(string \<rightharpoonup> string jsset) \<Rightarrow> string \<Rightarrow> string jsset" where
  "reasonsOf led k = (case led k of None \<Rightarrow> [] | Some s \<Rightarrow> s)"

definition addEvidence :: "string \<Rightarrow> string \<Rightarrow> string \<Rightarrow> resolver \<Rightarrow> resolver" where
  "addEvidence a b reason st =
     st\<lparr>evidenceByPair :=
          (evidenceByPair st)(pairKey a b \<mapsto> set_add (reasonsOf (evidenceByPair st) (pairKey a b)) reason)\<rparr>"

fun connectLoop :: "string \<Rightarrow> string list \<Rightarrow> string \<Rightarrow> resolver \<Rightarrow> resolver option" where
  "connectLoop first [] reason st = Some st"
| "connectLoop first (m # ms) reason st =
     (case union_uf (uf st) first m of
        None \<Rightarrow> None
      | Some u \<Rightarrow> connectLoop first ms reason (addEvidence first m reason (st\<lparr>uf := u\<rparr>)))"

definition connectMany :: "string list \<Rightarrow> string \<Rightarrow> resolver \<Rightarrow> resolver option" where
  "connectMany mems reason st =
     (if length mems < 2 then Some st else connectLoop (hd mems) (tl mems) reason st)"

text \<open>\<open>m.forEach(...)\<close> with a callback that updates the state and may fail to return.\<close>

fun for_each :: "('a \<Rightarrow> 's \<Rightarrow> 's option) \<Rightarrow> 'a list \<Rightarrow> 's \<Rightarrow> 's option" where
  "for_each f [] st = Some st"
| "for_each f (x # xs) st = (case f x st of None \<Rightarrow> None | Some st' \<Rightarrow> for_each f xs st')"

subsection \<open>The signal passes\<close>

text \<open>\<open>linksByActor.get(a) || []\<close>\<close>

definition linksOf :: "input \<Rightarrow> string \<Rightarrow> string list" where
  "linksOf inp a = (case map_get (linksByActor inp) a of None \<Rightarrow> [] | Some ls \<Rightarrow> ls)"

text \<open>1) Shared exact links.\<close>

definition linkToActors :: "input \<Rightarrow> (string, string jsset) jsmap" where
  "linkToActors inp =
     fold (\<lambda>a m. fold (\<lambda>l m. add_to_set_map m l a) (linksOf inp a) m) (actors inp) []"

definition linkVisit :: "string \<times> string jsset \<Rightarrow> resolver \<Rightarrow> resolver option" where
  "linkVisit = (\<lambda>(link, s) st.
     if length s < 2 then Some st else connectMany s (''Shared link: '' @ link) st)"

text \<open>2) Shared uncommon domains.\<close>

definition domainToActors :: "(string \<Rightarrow> string option) \<Rightarrow> input \<Rightarrow> (string, string jsset) jsmap" where
  "domainToActors urlHostname inp =
     fold (\<lambda>a m.
        fold (\<lambda>d m. add_to_set_map m d a)
          (new_set (filter (\<lambda>d. d \<notin> set COMMON_DOMAINS) (extractDomains urlHostname (linksOf inp a)))) m)
       (actors inp) []"

definition domainVisit :: "string \<times> string jsset \<Rightarrow> resolver \<Rightarrow> resolver option" where
  "domainVisit = (\<lambda>(domain, s) st.
     if length s < 3 then Some st else connectMany s (''Shared domain: '' @ domain) st)"

text \<open>3) Shared handle stems.\<close>

definition stemToActors :: "input \<Rightarrow> (string, string jsset) jsmap" where
  "stemToActors inp =
     fold (\<lambda>(actor, stem) m. if stem = [] then m else add_to_set_map m stem actor)
       (handleStemByActor inp) []"

definition stemVisit :: "string \<times> string jsset \<Rightarrow> resolver \<Rightarrow> resolver option" where
  "stemVisit = (\<lambda>(stem, s) st.
     if length s < 4 then Some st else connectMany s (''Shared handle stem: '' @ stem) st)"

text \<open>3b) Exact base handle match across platforms.\<close>

definition baseHandleToActors :: "input \<Rightarrow> (string, string jsset) jsmap" where
  "baseHandleToActors inp =
     fold (\<lambda>actor m.
        let parts = splitOn (CHR '':'') actor in
        if length parts < 2 then m
        else
          let base = toLowerCase (trim (joinWith '':'' (drop 1 parts))) in
          if length base < 3 then m else add_to_set_map m base actor)
       (actors inp) []"

definition baseHandleVisit :: "string \<times> string jsset \<Rightarrow> resolver \<Rightarrow> resolver option" where
  "baseHandleVisit = (\<lambda>(base, s) st.
     if length s < 2 then Some st
     else connectMany s (''Same handle across platforms: '' @ base) st)"

text \<open>
  4) Wallet address reuse. The three lists are pushed with spread calls, each of which
  throws when the list is longer than \<open>argLimit\<close>; the extra wallets are pushed as they
  are.
\<close>

datatype error = RangeError

text \<open>\<open>arr.push(...xs)\<close>\<close>

definition pushSpread :: "nat \<Rightarrow> 'a list \<Rightarrow> 'a list \<Rightarrow> error + 'a list" where
  "pushSpread argLimit arr xs = (if argLimit < length xs then Inl RangeError else Inr (arr @ xs))"

definition walletsOf :: "nat \<Rightarrow> input \<Rightarrow> string \<Rightarrow> error + string jsset" where
  "walletsOf argLimit inp a =
     (let bio = (case map_get (bioByActor inp) a of None \<Rightarrow> [] | Some b \<Rightarrow> b) in
      case pushSpread argLimit [] (extractEvmAddressesFromText bio) of
        Inl e \<Rightarrow> Inl e
      | Inr w1 \<Rightarrow>
          (case pushSpread argLimit w1 (extractEvmAddressesFromText (joinWith [CHR 0x0A] (linksOf inp a))) of
             Inl e \<Rightarrow> Inl e
           | Inr w2 \<Rightarrow>
               (case (case extraWalletsByActor inp of
                        None \<Rightarrow> Inr w2
                      | Some ex \<Rightarrow>
                          (case map_get ex a of None \<Rightarrow> Inr w2 | Some ws \<Rightarrow> pushSpread argLimit w2 ws)) of
                  Inl e \<Rightarrow> Inl e
                | Inr w3 \<Rightarrow>
                    let w4 = (if looksLikeEvmAddress a then w3 @ [toLowerCase a] else w3)
                    in Inr (new_set (filter looksLikeEvmAddress w4)))))"

fun walletLoop :: "nat \<Rightarrow> input \<Rightarrow> string list \<Rightarrow> (string, string jsset) jsmap
    \<Rightarrow> error + (string, string jsset) jsmap" where
  "walletLoop argLimit inp [] m = Inr m"
| "walletLoop argLimit inp (a # as) m =
     (case walletsOf argLimit inp a of
        Inl e \<Rightarrow> Inl e
      | Inr uniq \<Rightarrow> walletLoop argLimit inp as (fold (\<lambda>w m. add_to_set_map m w a) uniq m))"

definition walletToActors :: "nat \<Rightarrow> input \<Rightarrow> error + (string, string jsset) jsmap" where
  "walletToActors argLimit inp = walletLoop argLimit inp (actors inp) []"

definition walletVisit :: "string \<times> string jsset \<Rightarrow> resolver \<Rightarrow> resolver option" where
  "walletVisit = (\<lambda>(wallet, s) st.
     if length s < 2 then Some st else connectMany s (''Shared wallet: '' @ wallet) st)"

text \<open>5) Common funder across wallets.\<close>

definition funderToWallets :: "input \<Rightarrow> (string, string jsset) jsmap" where
  "funderToWallets inp =
     fold (\<lambda>(wallet, funders) m.
        fold (\<lambda>f m. if \<not> looksLikeEvmAddress f then m else add_to_set_map m f wallet) funders m)
       (sharedFundersByWallet inp) []"

definition funderVisit :: "string \<times> string jsset \<Rightarrow> resolver \<Rightarrow> resolver option" where
  "funderVisit = (\<lambda>(funder, walletSet) st.
     if length walletSet < 2 then Some st
     else connectMany walletSet (''Common funder: '' @ funder) st)"

definition initialState :: "input \<Rightarrow> resolver" where
  "initialState inp = \<lparr>uf = makeUnionFind (actors inp), evidenceByPair = Map.empty\<rparr>"

text \<open>
  The passes before the wallet pass; those up to and including the wallet pass, whose map
  is built after the earlier passes have run; and all of them.
\<close>

definition passesBeforeWallets :: "(string \<Rightarrow> string option) \<Rightarrow> input \<Rightarrow> resolver option" where
  "passesBeforeWallets urlHostname inp =
     Option.bind (for_each linkVisit (linkToActors inp) (initialState inp)) (\<lambda>st1.
     Option.bind (for_each domainVisit (domainToActors urlHostname inp) st1) (\<lambda>st2.
     Option.bind (for_each stemVisit (stemToActors inp) st2) (\<lambda>st3.
     for_each baseHandleVisit (baseHandleToActors inp) st3)))"

definition passesBeforeFunders :: "nat \<Rightarrow> (string \<Rightarrow> string option) \<Rightarrow> input
    \<Rightarrow> (error + resolver) option" where
  "passesBeforeFunders argLimit urlHostname inp =
     (case passesBeforeWallets urlHostname inp of
        None \<Rightarrow> None
      | Some st4 \<Rightarrow>
          (case walletToActors argLimit inp of
             Inl e \<Rightarrow> Some (Inl e)
           | Inr wm \<Rightarrow> map_option Inr (for_each walletVisit wm st4)))"

definition runPasses :: "nat \<Rightarrow> (string \<Rightarrow> string option) \<Rightarrow> input \<Rightarrow> (error + resolver) option" where
  "runPasses argLimit urlHostname inp =
     (case passesBeforeFunders argLimit urlHostname inp of
        None \<Rightarrow> None
      | Some (Inl e) \<Rightarrow> Some (Inl e)
      | Some (Inr st5) \<Rightarrow> map_option Inr (for_each funderVisit (funderToWallets inp) st5))"

subsection \<open>Building the groups\<close>

fun rootToMembers :: "string list \<Rightarrow> unionFind \<Rightarrow> (string, string list) jsmap
    \<Rightarrow> (string, string list) jsmap option" where
  "rootToMembers [] u m = Some m"
| "rootToMembers (a # as) u m =
     (case find_uf u a of
        None \<Rightarrow> None
      | Some (r, u') \<Rightarrow> rootToMembers as u' (push_to_map m r a))"

text \<open>
  The pairwise evidence scan: \<open>innerScan\<close> is the loop over \<open>j\<close> for one \<open>i\<close>,
  \<open>collectReasons\<close> the loop over \<open>i\<close>; both stop once 8 reasons are there.
\<close>

fun innerScan :: "(string \<rightharpoonup> string jsset) \<Rightarrow> string \<Rightarrow> string list \<Rightarrow> string jsset \<Rightarrow> string jsset" where
  "innerScan led a [] reasons = reasons"
| "innerScan led a (b # bs) reasons =
     (let reasons' = fold (\<lambda>r s. set_add s r) (reasonsOf led (pairKey a b)) reasons
      in if length reasons' \<ge> 8 then reasons' else innerScan led a bs reasons')"

fun scanPairs :: "(string \<rightharpoonup> string jsset) \<Rightarrow> string list \<Rightarrow> string jsset \<Rightarrow> string jsset" where
  "scanPairs led [] reasons = reasons"
| "scanPairs led (a # rest) reasons =
     (let reasons' = innerScan led a rest reasons
      in if length reasons' \<ge> 8 then reasons' else scanPairs led rest reasons')"

definition collectReasons :: "(string \<rightharpoonup> string jsset) \<Rightarrow> string list \<Rightarrow> string jsset" where
  "collectReasons led mems = scanPairs led mems []"

definition someStartsWith :: "string list \<Rightarrow> string \<Rightarrow> bool" where
  "someStartsWith rs p = list_ex (\<lambda>r. startsWith r p) rs"

definition scoreOf :: "nat \<Rightarrow> string list \<Rightarrow> rat" where
  "scoreOf memberCount reasonsArr =
     (let score = 25 / 100;
          score = score + min ((of_int (int memberCount - 2)) / 10) (25 / 100);
          score = (if someStartsWith reasonsArr ''Shared wallet:'' then score + 25 / 100 else score);
          score = (if someStartsWith reasonsArr ''Common funder:'' then score + 25 / 100 else score);
          score = (if someStartsWith reasonsArr ''Shared link:'' then score + 15 / 100 else score);
          score = (if someStartsWith reasonsArr ''Shared domain:'' then score + 10 / 100 else score)
      in min score 1)"

record controllerGroup =
  controllerId :: nat
  members :: "string list"
  score :: rat
  evidence :: "string list"

record building =
  groupsAcc :: "controllerGroup list"
  idsAcc :: "(string, nat) jsmap"
  nextId :: nat

definition makeGroup :: "(string \<rightharpoonup> string jsset) \<Rightarrow> nat \<Rightarrow> string list \<Rightarrow> controllerGroup" where
  "makeGroup led cid mems0 =
     (let mems = sort mems0;
          reasonsArr = collectReasons led mems
      in \<lparr>controllerId = cid, members = mems, score = scoreOf (length mems) reasonsArr,
          evidence = take 8 reasonsArr\<rparr>)"

definition visitComponent :: "(string \<rightharpoonup> string jsset) \<Rightarrow> int \<Rightarrow> string list \<Rightarrow> building \<Rightarrow> building" where
  "visitComponent led mgs mems0 bs =
     (if int (length mems0) < max 2 mgs then bs
      else
        let g = makeGroup led (nextId bs) mems0
        in \<lparr>groupsAcc = groupsAcc bs @ [g],
            idsAcc = fold (\<lambda>m ids. map_set ids m (controllerId g)) (members g) (idsAcc bs),
            nextId = nextId bs + 1\<rparr>)"

definition buildGroups :: "(string \<rightharpoonup> string jsset) \<Rightarrow> int \<Rightarrow> (string, string list) jsmap \<Rightarrow> building" where
  "buildGroups led mgs rtm =
     fold (\<lambda>(root, mems0) bs. visitComponent led mgs mems0 bs) rtm
       \<lparr>groupsAcc = [], idsAcc = [], nextId = 0\<rparr>"

text \<open>
  \<open>groups.sort((a, b) => b.score - a.score || b.members.length - a.members.length)\<close>:
  a stable sort by descending score, then descending member count.
\<close>

definition sortKey :: "controllerGroup \<Rightarrow> rat \<times> int" where
  "sortKey g = (- score g, - int (length (members g)))"

record result =
  groups :: "controllerGroup list"
  controllerIdByActor :: "(string, nat) jsmap"

definition finish :: "building \<Rightarrow> result" where
  "finish bs = \<lparr>groups = sort_key sortKey (groupsAcc bs), controllerIdByActor = idsAcc bs\<rparr>"

definition computeControllerGroups :: "nat \<Rightarrow> (string \<Rightarrow> string option) \<Rightarrow> input
    \<Rightarrow> (error + result) option" where
  "computeControllerGroups argLimit urlHostname inp =
     (case runPasses argLimit urlHostname inp of
        None \<Rightarrow> None
      | Some (Inl e) \<Rightarrow> Some (Inl e)
      | Some (Inr st) \<Rightarrow>
          (case rootToMembers (actors inp) (uf st) [] of
             None \<Rightarrow> None
           | Some rtm \<Rightarrow>
               Some (Inr (finish (buildGroups (evidenceByPair st) (minGroupSize inp) rtm)))))"

subsection \<open>Specification vocabulary for the disjoint-set forest\<close>

text \<open>
  What \<open>find\<close> treats as a root: no parent entry, an empty parent, or itself as parent.
\<close>

definition isRoot :: "unionFind \<Rightarrow> string \<Rightarrow> bool" where
  "isRoot u x = (case parent u x of None \<Rightarrow> True | Some p \<Rightarrow> p = [] \<or> p = x)"

text \<open>The edges that \<open>find\<close> follows, as pairs (parent, child).\<close>

definition up :: "unionFind \<Rightarrow> (string \<times> string) set" where
  "up u = {(p, x). parent u x = Some p \<and> p \<noteq> [] \<and> p \<noteq> x}"

text \<open>The forest invariant: no infinite chain of parents, so no cycle.\<close>

definition uf_inv :: "unionFind \<Rightarrow> bool" where
  "uf_inv u = wf (up u)"

definition inv_st :: "resolver \<Rightarrow> bool" where
  "inv_st st = uf_inv (uf st)"

inductive rootOf :: "unionFind \<Rightarrow> string \<Rightarrow> string \<Rightarrow> bool" for u where
  rootOf_base: "isRoot u x \<Longrightarrow> rootOf u x x"
| rootOf_step: "(p, x) \<in> up u \<Longrightarrow> rootOf u p r \<Longrightarrow> rootOf u x r"

definition sameComp :: "unionFind \<Rightarrow> string \<Rightarrow> string \<Rightarrow> bool" where
  "sameComp u x y = (\<exists>r. rootOf u x r \<and> rootOf u y r)"

text \<open>
  What a \<open>find\<close> on \<open>x\<close> may change: only nodes on the path from \<open>x\<close> to its root, which
  then point at that root.
\<close>

definition pathChanged :: "unionFind \<Rightarrow> unionFind \<Rightarrow> string \<Rightarrow> bool" where
  "pathChanged u u' x =
     (\<forall>y. parent u' y = parent u y \<or>
          (\<exists>r. parent u' y = Some r \<and> rootOf u y r \<and> y \<noteq> r \<and> (y, x) \<in> (up u)\<^sup>*))"

text \<open>In the forest \<open>u\<close>, \<open>find\<close> gives all strings of \<open>s\<close> the root of the first.\<close>

definition unitedIn :: "unionFind \<Rightarrow> string list \<Rightarrow> bool" where
  "unitedIn u s = list_all (\<lambda>x. find_root u x = find_root u (hd s)) s"

text \<open>Every pair that is connected in \<open>u\<close> is connected in \<open>u'\<close>.\<close>

definition keepsComps :: "unionFind \<Rightarrow> unionFind \<Rightarrow> bool" where
  "keepsComps u u' = (\<forall>y z. sameComp u y z \<longrightarrow> sameComp u' y z)"

text \<open>
  What is connected in \<open>u\<close> is connected in \<open>u0\<close> already or goes through \<open>W\<close>: both
  ends are connected in \<open>u0\<close> to strings of \<open>W\<close>.
\<close>

definition onlyThrough :: "unionFind \<Rightarrow> string set \<Rightarrow> unionFind \<Rightarrow> bool" where
  "onlyThrough u0 W u =
     (\<forall>y z. sameComp u y z \<longrightarrow>
        sameComp u0 y z \<or> (\<exists>w1 \<in> W. \<exists>w2 \<in> W. sameComp u0 y w1 \<and> sameComp u0 z w2))"

text \<open>No edge of the forest crosses between the set \<open>N\<close> and its complement.\<close>

definition sep :: "string set \<Rightarrow> unionFind \<Rightarrow> bool" where
  "sep N u = (\<forall>p x. (p, x) \<in> up u \<longrightarrow> (p \<in> N \<longleftrightarrow> x \<in> N))"

text \<open>
  The frame of a pass that only touches strings outside \<open>N\<close>: the forest stays
  well-founded and separated, and the parent entries of the strings in \<open>N\<close> are those of
  the forest \<open>u0\<close> at the start.
\<close>

definition frame :: "string set \<Rightarrow> unionFind \<Rightarrow> resolver \<Rightarrow> bool" where
  "frame N u0 st =
     (wf (up (uf st)) \<and> sep N (uf st) \<and> (\<forall>y \<in> N. parent (uf st) y = parent u0 y))"

text \<open>All members of the sets of a set-valued map.\<close>

definition vals :: "('k, 'a jsset) jsmap \<Rightarrow> 'a set" where
  "vals m = (\<Union>e \<in> set m. set (snd e))"

text \<open>The wallets that the funder pass unites: the members of its sets of size 2 or more.\<close>

definition fundedKeys :: "input \<Rightarrow> string set" where
  "fundedKeys inp = vals (filter (\<lambda>e. 2 \<le> length (snd e)) (funderToWallets inp))"

text \<open>The three lists that \<open>walletsOf\<close> spreads for the actor \<open>a\<close> fit the argument limit.\<close>

definition spreadsFit :: "nat \<Rightarrow> input \<Rightarrow> string \<Rightarrow> bool" where
  "spreadsFit argLimit inp a =
     (length (extractEvmAddressesFromText (case map_get (bioByActor inp) a of None \<Rightarrow> [] | Some b \<Rightarrow> b))
        \<le> argLimit \<and>
      length (extractEvmAddressesFromText (joinWith [CHR 0x0A] (linksOf inp a))) \<le> argLimit \<and>
      (case extraWalletsByActor inp of
         None \<Rightarrow> True
       | Some ex \<Rightarrow> (case map_get ex a of None \<Rightarrow> True | Some ws \<Rightarrow> length ws \<le> argLimit)))"

text \<open>The evidence ledger after all passes (empty if the run does not get there).\<close>

definition finalLedger :: "nat \<Rightarrow> (string \<Rightarrow> string option) \<Rightarrow> input \<Rightarrow> (string \<rightharpoonup> string jsset)" where
  "finalLedger argLimit urlHostname inp =
     (case runPasses argLimit urlHostname inp of
        Some (Inr st) \<Rightarrow> evidenceByPair st
      | _ \<Rightarrow> Map.empty)"

text \<open>The forest after all passes (the initial forest if the run does not get there).\<close>

definition finalForest :: "nat \<Rightarrow> (string \<Rightarrow> string option) \<Rightarrow> input \<Rightarrow> unionFind" where
  "finalForest argLimit urlHostname inp =
     (case runPasses argLimit urlHostname inp of
        Some (Inr st) \<Rightarrow> uf st
      | _ \<Rightarrow> makeUnionFind (actors inp))"

text \<open>The forest after the wallet pass, before the funder pass.\<close>

definition forestBeforeFunders :: "nat \<Rightarrow> (string \<Rightarrow> string option) \<Rightarrow> input \<Rightarrow> unionFind" where
  "forestBeforeFunders argLimit urlHostname inp =
     (case passesBeforeFunders argLimit urlHostname inp of
        Some (Inr st) \<Rightarrow> uf st
      | _ \<Rightarrow> makeUnionFind (actors inp))"

text \<open>
  The member count of the component of \<open>a\<close>: the entries of the actor list with the same
  root as \<open>a\<close>, which is the length of the array that \<open>rootToMembers\<close> holds for that root.
\<close>

definition componentCount :: "nat \<Rightarrow> (string \<Rightarrow> string option) \<Rightarrow> input \<Rightarrow> string \<Rightarrow> nat" where
  "componentCount argLimit urlHostname inp a =
     length (filter (\<lambda>b. find_root (finalForest argLimit urlHostname inp) b
                         = find_root (finalForest argLimit urlHostname inp) a)
       (actors inp))"

text \<open>The array \<open>groups\<close> as it is before \<open>groups.sort\<close>.\<close>

definition groupsBeforeSort :: "nat \<Rightarrow> (string \<Rightarrow> string option) \<Rightarrow> input \<Rightarrow> controllerGroup list" where
  "groupsBeforeSort argLimit urlHostname inp =
     (case runPasses argLimit urlHostname inp of
        Some (Inr st) \<Rightarrow>
          (case rootToMembers (actors inp) (uf st) [] of
             None \<Rightarrow> []
           | Some rtm \<Rightarrow> groupsAcc (buildGroups (evidenceByPair st) (minGroupSize inp) rtm))
      | _ \<Rightarrow> [])"

subsection \<open>Concrete inputs\<close>

text \<open>
  A stand-in for \<open>new URL(l).hostname\<close> on the example inputs: a link
  \<open>https://host/...\<close> has the hostname \<open>host\<close>, any other string does not parse.
\<close>

definition exampleHostname :: "string \<Rightarrow> string option" where
  "exampleHostname l =
     (if startsWith l ''https://'' then Some (takeWhile (\<lambda>c. c \<noteq> CHR ''/'') (drop 8 l)) else None)"

text \<open>An argument limit for the example runs.\<close>

definition exampleArgLimit :: nat where
  "exampleArgLimit = 1000"

definition noInput :: input where
  "noInput = \<lparr>actors = [], linksByActor = [], bioByActor = [], handleStemByActor = [],
      sharedFundersByWallet = [], extraWalletsByActor = None, minGroupSize = 2\<rparr>"

text \<open>Two handles of one name that share a link, and a third actor on its own.\<close>

definition inputTrio :: input where
  "inputTrio = noInput\<lparr>actors := [''x:alice'', ''y:alice'', ''z:bob''],
      linksByActor := [(''x:alice'', [''https://a.io/p'']), (''y:alice'', [''https://a.io/p''])]\<rparr>"

definition groupTrio :: controllerGroup where
  "groupTrio = \<lparr>controllerId = 0, members = [''x:alice'', ''y:alice''], score = 2 / 5,
      evidence = [''Shared link: https://a.io/p'', ''Same handle across platforms: alice'']\<rparr>"

definition outputTrio :: result where
  "outputTrio = \<lparr>groups = [groupTrio], controllerIdByActor = [(''x:alice'', 0), (''y:alice'', 0)]\<rparr>"

definition funderF :: string where
  "funderF = ''0xffffffffffffffffffffffffffffffffffffffff''"

definition funderG :: string where
  "funderG = ''0x9999999999999999999999999999999999999999''"

definition walletC :: string where
  "walletC = ''0xcccccccccccccccccccccccccccccccccccccccc''"

definition walletLower :: string where
  "walletLower = ''0xaaaaaaaaaaaaaaaaaaaaaaaaaaaaaaaaaaaaaaaa''"

definition walletUpper :: string where
  "walletUpper = ''0xAAAAAAAAAAAAAAAAAAAAAAAAAAAAAAAAAAAAAAAA''"

text \<open>
  A pair of handles with the handle evidence only, enumerated first, and a pair of actors
  that share a wallet, enumerated second.
\<close>

definition inputTwoGroups :: input where
  "inputTwoGroups = noInput\<lparr>actors := [''x:alice'', ''y:alice'', ''a1'', ''a2''],
      extraWalletsByActor := Some [(''a1'', [walletLower]), (''a2'', [walletLower])]\<rparr>"

definition outputTwoGroups :: result where
  "outputTwoGroups =
     \<lparr>groups =
        [\<lparr>controllerId = 1, members = [''a1'', ''a2''], score = 1 / 2,
           evidence = [''Shared wallet: 0xaaaaaaaaaaaaaaaaaaaaaaaaaaaaaaaaaaaaaaaa'']\<rparr>,
         \<lparr>controllerId = 0, members = [''x:alice'', ''y:alice''], score = 1 / 4,
           evidence = [''Same handle across platforms: alice'']\<rparr>],
      controllerIdByActor = [(''x:alice'', 0), (''y:alice'', 0), (''a1'', 1), (''a2'', 1)]\<rparr>"

text \<open>
  Four handles of one name with the same link, stem and wallet, and two funded wallets with
  one funder: every pass has a set that meets its threshold.
\<close>

definition fourActors :: "string list" where
  "fourActors = [''w:alice'', ''x:alice'', ''y:alice'', ''z:alice'']"

definition inputAll :: input where
  "inputAll = noInput\<lparr>actors := fourActors,
      linksByActor := map (\<lambda>a. (a, [''https://a.io/p''])) fourActors,
      handleStemByActor := map (\<lambda>a. (a, ''ali'')) fourActors,
      sharedFundersByWallet := [(walletLower, [funderF]), (walletC, [funderF])],
      extraWalletsByActor := Some (map (\<lambda>a. (a, [walletLower])) fourActors)\<rparr>"

text \<open>Three actors with three links on one uncommon domain; and the first two of them.\<close>

definition inputDomain3 :: input where
  "inputDomain3 = noInput\<lparr>actors := [''p'', ''q'', ''r''],
      linksByActor := [(''p'', [''https://a.io/p'']), (''q'', [''https://a.io/q'']),
                       (''r'', [''https://a.io/r''])]\<rparr>"

definition inputDomain2 :: input where
  "inputDomain2 = inputDomain3\<lparr>actors := [''p'', ''q'']\<rparr>"

text \<open>Four actors with one handle stem; and the first three of them.\<close>

definition inputStem4 :: input where
  "inputStem4 = noInput\<lparr>actors := [''p'', ''q'', ''r'', ''s''],
      handleStemByActor := [(''p'', ''bot''), (''q'', ''bot''), (''r'', ''bot''), (''s'', ''bot'')]\<rparr>"

definition inputStem3 :: input where
  "inputStem3 = noInput\<lparr>actors := [''p'', ''q'', ''r''],
      handleStemByActor := [(''p'', ''bot''), (''q'', ''bot''), (''r'', ''bot'')]\<rparr>"

definition walletB :: string where
  "walletB = ''0xbbbbbbbbbbbbbbbbbbbbbbbbbbbbbbbbbbbbbbbb''"

text \<open>
  Two actors whose identifiers are wallets, with no funder in common, and a third wallet,
  in no actor's text and no actor's extra wallets, that has a funder in common with each.
\<close>

definition inputThroughC :: input where
  "inputThroughC = noInput\<lparr>actors := [walletLower, walletB],
      sharedFundersByWallet :=
        [(walletLower, [funderF]), (walletC, [funderF, funderG]), (walletB, [funderG])]\<rparr>"

definition outputThroughC :: result where
  "outputThroughC =
     \<lparr>groups = [\<lparr>controllerId = 0, members = [walletLower, walletB], score = 1 / 4, evidence = []\<rparr>],
      controllerIdByActor = [(walletLower, 0), (walletB, 0)]\<rparr>"

text \<open>
  Two actors that share a link; in the first input one of them is the empty string, in the
  second it has a name.
\<close>

definition inputEmptyActor :: input where
  "inputEmptyActor = noInput\<lparr>actors := [[], ''b''],
      linksByActor := [([], [''lnk'']), (''b'', [''lnk''])]\<rparr>"

definition inputNamedActor :: input where
  "inputNamedActor = noInput\<lparr>actors := [''a'', ''b''],
      linksByActor := [(''a'', [''lnk'']), (''b'', [''lnk''])]\<rparr>"

definition outputNamedActor :: result where
  "outputNamedActor =
     \<lparr>groups = [\<lparr>controllerId = 0, members = [''a'', ''b''], score = 2 / 5,
                   evidence = [''Shared link: lnk'']\<rparr>],
      controllerIdByActor = [(''a'', 0), (''b'', 0)]\<rparr>"

text \<open>One actor whose list of extra wallets has one element more than the argument limit.\<close>

definition inputOverLimit :: "nat \<Rightarrow> input" where
  "inputOverLimit argLimit = noInput\<lparr>actors := [''a''],
      extraWalletsByActor := Some [(''a'', replicate (Suc argLimit) walletLower)]\<rparr>"

text \<open>
  One actor has the address in upper case among its extra wallets, the other has the same
  address in lower case in its bio.
\<close>

definition inputMixedCase :: input where
  "inputMixedCase = noInput\<lparr>actors := [''a'', ''b''],
      bioByActor := [(''b'', walletLower)],
      extraWalletsByActor := Some [(''a'', [walletUpper])]\<rparr>"

text \<open>Two actors that share eight links and one wallet.\<close>

definition inputNine :: input where
  "inputNine = noInput\<lparr>actors := [''a'', ''b''],
      linksByActor := [(''a'', [''la'', ''lb'', ''lc'', ''ld'', ''le'', ''lf'', ''lg'', ''lh'']),
                       (''b'', [''la'', ''lb'', ''lc'', ''ld'', ''le'', ''lf'', ''lg'', ''lh''])],
      extraWalletsByActor := Some [(''a'', [walletLower]), (''b'', [walletLower])]\<rparr>"

definition groupNine :: controllerGroup where
  "groupNine = \<lparr>controllerId = 0, members = [''a'', ''b''], score = 13 / 20,
      evidence = [''Shared link: la'', ''Shared link: lb'', ''Shared link: lc'', ''Shared link: ld'',
                  ''Shared link: le'', ''Shared link: lf'', ''Shared link: lg'', ''Shared link: lh'']\<rparr>"

text \<open>
  Actors \<open>a1\<close>, \<open>a2\<close> disclose one wallet, actors \<open>b1\<close>, \<open>b2\<close> another, and both
  wallets have the same funder.
\<close>

definition inputFunded :: input where
  "inputFunded = noInput\<lparr>actors := [''a1'', ''a2'', ''b1'', ''b2''],
      bioByActor := [(''a1'', walletLower), (''a2'', walletLower), (''b1'', walletB), (''b2'', walletB)],
      sharedFundersByWallet := [(walletLower, [funderF]), (walletB, [funderF])]\<rparr>"

definition outputFunded :: result where
  "outputFunded =
     \<lparr>groups =
        [\<lparr>controllerId = 0, members = [''a1'', ''a2''], score = 1 / 2,
           evidence = [''Shared wallet: 0xaaaaaaaaaaaaaaaaaaaaaaaaaaaaaaaaaaaaaaaa'']\<rparr>,
         \<lparr>controllerId = 1, members = [''b1'', ''b2''], score = 1 / 2,
           evidence = [''Shared wallet: 0xbbbbbbbbbbbbbbbbbbbbbbbbbbbbbbbbbbbbbbbb'']\<rparr>],
      controllerIdByActor = [(''a1'', 0), (''a2'', 0), (''b1'', 1), (''b2'', 1)]\<rparr>"

section \<open>The disjoint-set forest: roots, find and union\<close>

lemma up_not_root: "(p, x) \<in> up u \<Longrightarrow> \<not> isRoot u x"
  by (auto simp: up_def isRoot_def)

lemma root_or_up: "isRoot u x \<or> (\<exists>p. (p, x) \<in> up u)"
  by (auto simp: up_def isRoot_def split: option.splits)

lemma up_fun: "(p, x) \<in> up u \<Longrightarrow> (q, x) \<in> up u \<Longrightarrow> p = q"
  by (auto simp: up_def)

lemma rootOf_isRoot: "rootOf u x r \<Longrightarrow> isRoot u r"
  by (induction rule: rootOf.induct) auto

lemma rootOf_root: "isRoot u x \<Longrightarrow> rootOf u x r \<longleftrightarrow> r = x"
  by (auto elim: rootOf.cases intro: rootOf_base dest: up_not_root)

lemma rootOf_det: "rootOf u x r \<Longrightarrow> rootOf u x s \<Longrightarrow> r = s"
proof (induction arbitrary: s rule: rootOf.induct)
  case (rootOf_base x)
  then show ?case by (simp add: rootOf_root)
next
  case (rootOf_step p x r)
  from rootOf_step.prems show ?case
  proof (cases rule: rootOf.cases)
    case rootOf_base
    then show ?thesis using rootOf_step.hyps(1) by (simp add: up_not_root)
  next
    case (rootOf_step q)
    then have "q = p" using \<open>(p, x) \<in> up u\<close> by (simp add: up_fun)
    then show ?thesis using rootOf_step(2) \<open>\<And>s. rootOf u p s \<Longrightarrow> r = s\<close> by simp
  qed
qed

lemma rootOf_total: "wf (up u) \<Longrightarrow> \<exists>r. rootOf u x r"
proof (induction x rule: wf_induct_rule)
  case (less x)
  show ?case
  proof (cases "isRoot u x")
    case True then show ?thesis by (auto intro: rootOf_base)
  next
    case False
    then obtain p where "(p, x) \<in> up u" using root_or_up by blast
    with less show ?thesis by (blast intro: rootOf_step)
  qed
qed

lemma rootOf_rtrancl: "rootOf u x r \<Longrightarrow> (r, x) \<in> (up u)\<^sup>*"
  by (induction rule: rootOf.induct) (auto intro: rtrancl_into_rtrancl)

lemma rootOf_trancl: "rootOf u x r \<Longrightarrow> x \<noteq> r \<Longrightarrow> (r, x) \<in> (up u)\<^sup>+"
  using rootOf_rtrancl by (metis rtranclD)

lemma up_nonempty: "(p, x) \<in> up u \<Longrightarrow> p \<noteq> []"
  by (simp add: up_def)

lemma rootOf_nonempty: "rootOf u x r \<Longrightarrow> x \<noteq> r \<Longrightarrow> r \<noteq> []"
  by (induction rule: rootOf.induct) (auto dest: up_nonempty)

lemma rootOf_up_neq: "wf (up u) \<Longrightarrow> (p, x) \<in> up u \<Longrightarrow> rootOf u x r \<Longrightarrow> r \<noteq> x"
  by (auto dest: up_not_root rootOf_isRoot)

text \<open>Redirecting a node to its root\<close>

lemma redirect_rootOf:
  assumes r: "rootOf u x r" and ne: "x \<noteq> r"
    and u': "parent u' = (parent u)(x \<mapsto> r)"
    and yr: "rootOf u y s"
  shows "rootOf u' y s"
  using yr
proof (induction rule: rootOf.induct)
  case (rootOf_base y)
  have "y \<noteq> x" using rootOf_base r ne by (auto simp: rootOf_root)
  then have "isRoot u' y" using rootOf_base by (simp add: isRoot_def u')
  then show ?case by (rule rootOf.rootOf_base)
next
  case (rootOf_step p y s)
  show ?case
  proof (cases "y = x")
    case False
    then have "(p, y) \<in> up u'" using rootOf_step.hyps(1) by (simp add: up_def u')
    then show ?thesis using rootOf_step.IH by (rule rootOf.rootOf_step)
  next
    case True
    have "rootOf u x s" using rootOf_step.hyps True by (auto intro: rootOf.rootOf_step)
    then have sr: "s = r" using r by (rule rootOf_det)
    have "isRoot u r" using r by (rule rootOf_isRoot)
    then have "isRoot u' r" using ne by (simp add: isRoot_def u')
    then have "rootOf u' r r" by (rule rootOf.rootOf_base)
    moreover have "(r, x) \<in> up u'" using ne rootOf_nonempty[OF r ne] by (simp add: up_def u')
    ultimately show ?thesis using True sr by (auto intro: rootOf.rootOf_step)
  qed
qed

lemma redirect_wf:
  assumes wf: "wf (up u)" and r: "rootOf u x r" and ne: "x \<noteq> r"
    and u': "parent u' = (parent u)(x \<mapsto> r)"
  shows "wf (up u')"
proof -
  have "up u' \<subseteq> (up u)\<^sup>+"
  proof
    fix e assume e: "e \<in> up u'"
    obtain p y where py: "e = (p, y)" by (cases e)
    show "e \<in> (up u)\<^sup>+"
    proof (cases "y = x")
      case True
      then have "p = r" using e py by (simp add: up_def u')
      then show ?thesis using rootOf_trancl[OF r ne] True py by simp
    next
      case False
      then have "(p, y) \<in> up u" using e py by (simp add: up_def u')
      then show ?thesis using py by auto
    qed
  qed
  moreover have "wf ((up u)\<^sup>+)" using wf by (rule wf_trancl)
  ultimately show ?thesis by (rule wf_subset[rotated])
qed

lemma rootOf_cong:
  assumes wf: "wf (up u)" and wf': "wf (up u')"
    and imp: "\<And>y s. rootOf u y s \<Longrightarrow> rootOf u' y s"
  shows "rootOf u' y s = rootOf u y s"
proof
  assume a: "rootOf u' y s"
  obtain t where t: "rootOf u y t" using rootOf_total[OF wf] by blast
  then have "rootOf u' y t" by (rule imp)
  with a have "s = t" by (rule rootOf_det)
  with t show "rootOf u y s" by simp
qed (rule imp)

lemma find_uf_spec:
  assumes wf: "wf (up u)"
  shows "\<exists>r u'. find_uf u x = Some (r, u') \<and> rootOf u x r \<and> size_uf u' = size_uf u \<and>
           wf (up u') \<and> (\<forall>y s. rootOf u' y s = rootOf u y s) \<and> pathChanged u u' x"
  using wf
proof (induction x rule: wf_induct_rule)
  case (less x)
  show ?case
  proof (cases "isRoot u x")
    case True
    then have "find_uf u x = Some (x, u)"
      by (subst find_uf.simps) (auto simp: isRoot_def split: option.splits)
    moreover have "rootOf u x x" using True by (rule rootOf_base)
    moreover have "pathChanged u u x" by (simp add: pathChanged_def)
    ultimately show ?thesis using wf by blast
  next
    case False
    then obtain p where px: "(p, x) \<in> up u" using root_or_up by blast
    from less.IH[OF px] obtain r u1 where
      f: "find_uf u p = Some (r, u1)" and rp: "rootOf u p r" and sz: "size_uf u1 = size_uf u"
      and wf1: "wf (up u1)" and same: "\<forall>y s. rootOf u1 y s = rootOf u y s"
      and pc: "pathChanged u u1 p"
      by blast
    let ?u' = "u1\<lparr>parent := (parent u1)(x \<mapsto> r)\<rparr>"
    have fx: "find_uf u x = Some (r, ?u')"
      using px f by (subst find_uf.simps) (auto simp: up_def)
    have rx: "rootOf u x r" using px rp by (rule rootOf_step)
    have ne: "x \<noteq> r" using rootOf_up_neq[OF wf px rx] by simp
    have rx1: "rootOf u1 x r" using rx same by blast
    have pu': "parent ?u' = (parent u1)(x \<mapsto> r)" by simp
    have wf': "wf (up ?u')" using wf1 rx1 ne pu' by (rule redirect_wf)
    have same': "\<forall>y s. rootOf ?u' y s = rootOf u y s"
    proof (intro allI)
      fix y s
      have "rootOf ?u' y s = rootOf u1 y s"
        using wf1 wf' by (rule rootOf_cong) (rule redirect_rootOf[OF rx1 ne pu'])
      also have "\<dots> = rootOf u y s" using same by blast
      finally show "rootOf ?u' y s = rootOf u y s" .
    qed
    have pc': "pathChanged u ?u' x"
      unfolding pathChanged_def
    proof
      fix y
      show "parent ?u' y = parent u y \<or>
          (\<exists>r. parent ?u' y = Some r \<and> rootOf u y r \<and> y \<noteq> r \<and> (y, x) \<in> (up u)\<^sup>*)"
      proof (cases "y = x")
        case True
        then show ?thesis using rx ne by auto
      next
        case False
        from pc consider "parent u1 y = parent u y"
          | r' where "parent u1 y = Some r'" "rootOf u y r'" "y \<noteq> r'" "(y, p) \<in> (up u)\<^sup>*"
          unfolding pathChanged_def by blast
        then show ?thesis
        proof cases
          case 1
          then show ?thesis using False by simp
        next
          case 2
          have "(y, x) \<in> (up u)\<^sup>*" using 2(4) px by (rule rtrancl_into_rtrancl)
          then show ?thesis using 2 False by simp
        qed
      qed
    qed
    show ?thesis
      using fx rx sz wf' same' pc' by (intro exI conjI) simp_all
  qed
qed

lemma isRoot_iff_up: "isRoot u x \<longleftrightarrow> (\<forall>p. (p, x) \<notin> up u)"
  using root_or_up up_not_root by blast

lemma rootOf_up_mono:
  assumes "up u' = up u" and "rootOf u y s"
  shows "rootOf u' y s"
  using assms(2)
proof (induction rule: rootOf.induct)
  case (rootOf_base x)
  then have "isRoot u' x" using assms(1) by (simp add: isRoot_iff_up)
  then show ?case by (rule rootOf.rootOf_base)
next
  case (rootOf_step p x r)
  then have "(p, x) \<in> up u'" using assms(1) by simp
  then show ?case using rootOf_step.IH by (rule rootOf.rootOf_step)
qed

lemma rootOf_up_eq: "up u' = up u \<Longrightarrow> rootOf u' y s = rootOf u y s"
  using rootOf_up_mono[of u' u] rootOf_up_mono[of u u'] by metis

text \<open>Attaching a root under another root\<close>

lemma link_up:
  assumes "parent u' = (parent u)(c \<mapsto> t)" and "isRoot u c" and "c \<noteq> t"
  shows "up u' = (if t = [] then up u else insert (t, c) (up u))"
proof -
  have nc: "\<And>p. (p, c) \<notin> up u" using assms(2) by (simp add: isRoot_iff_up)
  show ?thesis
  proof (cases "t = []")
    case True
    have "up u' = up u"
    proof (rule set_eqI)
      fix e :: "string \<times> string"
      obtain p y where e: "e = (p, y)" by (cases e)
      show "e \<in> up u' \<longleftrightarrow> e \<in> up u"
      proof (cases "y = c")
        case True
        then show ?thesis using nc[of p] e \<open>t = []\<close> assms(1) by (auto simp: up_def)
      next
        case False
        then show ?thesis using e assms(1) by (simp add: up_def)
      qed
    qed
    then show ?thesis using True by simp
  next
    case False
    have "up u' = insert (t, c) (up u)"
    proof (rule set_eqI)
      fix e :: "string \<times> string"
      obtain p y where e: "e = (p, y)" by (cases e)
      show "e \<in> up u' \<longleftrightarrow> e \<in> insert (t, c) (up u)"
      proof (cases "y = c")
        case True
        have "(p, c) \<in> up u' \<longleftrightarrow> p = t" using False assms(1,3) by (auto simp: up_def)
        then show ?thesis using nc e True by auto
      next
        case False
        then show ?thesis using e assms(1) by (simp add: up_def)
      qed
    qed
    then show ?thesis using False by simp
  qed
qed

lemma link_wf:
  assumes wf: "wf (up u)" and u': "parent u' = (parent u)(c \<mapsto> t)"
    and c: "isRoot u c" and t: "isRoot u t" and ne: "c \<noteq> t"
  shows "wf (up u')"
proof (cases "t = []")
  case True
  then show ?thesis using link_up[OF u' c ne] wf by simp
next
  case False
  have "(c, t) \<notin> (up u)\<^sup>*"
  proof
    assume "(c, t) \<in> (up u)\<^sup>*"
    then have "(c, t) \<in> (up u)\<^sup>+" using ne by (simp add: rtrancl_eq_or_trancl)
    then obtain z where "(z, t) \<in> up u" by (meson tranclE)
    then show False using t by (simp add: isRoot_iff_up)
  qed
  then have "wf (insert (t, c) (up u))" using wf by (simp add: wf_insert)
  then show ?thesis using link_up[OF u' c ne] False by simp
qed

lemma link_rootOf:
  assumes u': "parent u' = (parent u)(c \<mapsto> t)"
    and c: "isRoot u c" and t: "isRoot u t" and ne: "c \<noteq> t" and tne: "t \<noteq> []"
    and ys: "rootOf u y s"
  shows "rootOf u' y (if s = c then t else s)"
  using ys
proof (induction rule: rootOf.induct)
  case (rootOf_base x)
  have upeq: "up u' = insert (t, c) (up u)" using link_up[OF u' c ne] tne by simp
  show ?case
  proof (cases "x = c")
    case True
    have "isRoot u' t" using t upeq ne by (auto simp: isRoot_iff_up)
    then have "rootOf u' t t" by (rule rootOf.rootOf_base)
    moreover have "(t, c) \<in> up u'" using upeq by simp
    ultimately have "rootOf u' c t" by (rule rootOf.rootOf_step[rotated])
    then show ?thesis using True by simp
  next
    case False
    have "isRoot u' x" using rootOf_base upeq False by (auto simp: isRoot_iff_up)
    then have "rootOf u' x x" by (rule rootOf.rootOf_base)
    then show ?thesis using False by simp
  qed
next
  case (rootOf_step p x r)
  have upeq: "up u' = insert (t, c) (up u)" using link_up[OF u' c ne] tne by simp
  have "(p, x) \<in> up u'" using rootOf_step.hyps(1) upeq by simp
  then show ?case using rootOf_step.IH by (rule rootOf.rootOf_step)
qed

lemma sameComp_refl_iff: "sameComp u x x \<longleftrightarrow> (\<exists>r. rootOf u x r)"
  by (auto simp: sameComp_def)

lemma sameComp_sym: "sameComp u x y \<Longrightarrow> sameComp u y x"
  by (auto simp: sameComp_def)

lemma sameComp_trans: "sameComp u x y \<Longrightarrow> sameComp u y z \<Longrightarrow> sameComp u x z"
  unfolding sameComp_def using rootOf_det by blast

lemma sameComp_eq_cong: "(\<forall>y s. rootOf u' y s = rootOf u y s) \<Longrightarrow> sameComp u' x y = sameComp u x y"
  by (simp add: sameComp_def)

text \<open>union\<close>

lemma union_uf_spec:
  assumes wf: "wf (up u)"
  shows "\<exists>u'. union_uf u a b = Some u' \<and> wf (up u') \<and>
           (\<forall>y z. sameComp u y z \<longrightarrow> sameComp u' y z) \<and>
           (a \<noteq> [] \<and> b \<noteq> [] \<longrightarrow> sameComp u' a b) \<and>
           (\<forall>y z. sameComp u' y z \<longrightarrow>
              sameComp u y z \<or> (sameComp u y a \<and> sameComp u z b) \<or> (sameComp u y b \<and> sameComp u z a))"
proof -
  from find_uf_spec[OF wf, of a] obtain ra u1 where
    fa: "find_uf u a = Some (ra, u1)" and ra: "rootOf u a ra" and wf1: "wf (up u1)"
    and same1: "\<forall>y s. rootOf u1 y s = rootOf u y s"
    by blast
  from find_uf_spec[OF wf1, of b] obtain rb u2 where
    fb: "find_uf u1 b = Some (rb, u2)" and rb1: "rootOf u1 b rb" and wf2: "wf (up u2)"
    and same2: "\<forall>y s. rootOf u2 y s = rootOf u1 y s"
    by blast
  have same: "\<And>y s. rootOf u2 y s = rootOf u y s" using same1 same2 by simp
  have rb: "rootOf u b rb" using rb1 same1 by simp
  have sc2: "\<And>y z. sameComp u2 y z = sameComp u y z" using same by (simp add: sameComp_def)
  have rootA: "isRoot u2 ra" using ra same rootOf_isRoot by blast
  have rootB: "isRoot u2 rb" using rb same rootOf_isRoot by blast
  show ?thesis
  proof (cases "ra = rb")
    case True
    then have un: "union_uf u a b = Some u2" using fa fb by (simp add: union_uf_def)
    have "sameComp u a b" using ra rb True by (auto simp: sameComp_def)
    then show ?thesis using un wf2 sc2 by auto
  next
    case False
    define c where "c = (if size_or_1 u2 ra < size_or_1 u2 rb then ra else rb)"
    define t where "t = (if size_or_1 u2 ra < size_or_1 u2 rb then rb else ra)"
    have ct: "c \<noteq> t" "isRoot u2 c" "isRoot u2 t" "(c = ra \<and> t = rb) \<or> (c = rb \<and> t = ra)"
      using False rootA rootB by (simp_all add: c_def t_def)
    have "\<exists>u'. union_uf u a b = Some u' \<and> parent u' = (parent u2)(c \<mapsto> t)"
      using fa fb False by (cases "size_or_1 u2 ra < size_or_1 u2 rb") (simp_all add: union_uf_def c_def t_def Let_def)
    then obtain u' where un: "union_uf u a b = Some u'" and pu': "parent u' = (parent u2)(c \<mapsto> t)"
      by blast
    have wf': "wf (up u')" using wf2 pu' ct(2,3,1) by (rule link_wf)
    show ?thesis
    proof (cases "t = []")
      case True
      have upeq: "up u' = up u2" using link_up[OF pu' ct(2,1)] True by simp
      have same': "\<And>y s. rootOf u' y s = rootOf u y s"
        using rootOf_up_eq[OF upeq] same by simp
      have sc': "\<And>y z. sameComp u' y z = sameComp u y z"
        unfolding sameComp_def same' by (rule refl)
      have "a = [] \<or> b = []"
      proof -
        have "ra = [] \<or> rb = []" using True ct(4) by blast
        then show ?thesis using rootOf_nonempty[OF ra] rootOf_nonempty[OF rb] by auto
      qed
      then show ?thesis using un wf' sc' by auto
    next
      case tne: False
      have img: "\<And>y s. rootOf u y s \<Longrightarrow> rootOf u' y (if s = c then t else s)"
        using link_rootOf[OF pu' ct(2,3,1) tne] same by simp
      have mono: "\<forall>y z. sameComp u y z \<longrightarrow> sameComp u' y z"
        unfolding sameComp_def using img by blast
      have ab: "sameComp u' a b"
      proof -
        have "rootOf u' a (if ra = c then t else ra)" using img[OF ra] .
        moreover have "rootOf u' b (if rb = c then t else rb)" using img[OF rb] .
        moreover have "(if ra = c then t else ra) = (if rb = c then t else rb)"
          using ct(4) False by auto
        ultimately show ?thesis unfolding sameComp_def by auto
      qed
      have exact: "\<forall>y z. sameComp u' y z \<longrightarrow>
              sameComp u y z \<or> (sameComp u y a \<and> sameComp u z b) \<or> (sameComp u y b \<and> sameComp u z a)"
      proof (intro allI impI)
        fix y z assume "sameComp u' y z"
        then obtain r' where y': "rootOf u' y r'" and z': "rootOf u' z r'" by (auto simp: sameComp_def)
        obtain sy where sy: "rootOf u y sy" using rootOf_total[OF wf] by blast
        obtain sz where sz: "rootOf u z sz" using rootOf_total[OF wf] by blast
        have "r' = (if sy = c then t else sy)" using rootOf_det[OF y' img[OF sy]] .
        moreover have "r' = (if sz = c then t else sz)" using rootOf_det[OF z' img[OF sz]] .
        ultimately have "sy = sz \<or> (sy = c \<and> sz = t) \<or> (sy = t \<and> sz = c)"
          by (auto split: if_splits)
        then have "sy = sz \<or> (sy = ra \<and> sz = rb) \<or> (sy = rb \<and> sz = ra)"
          using ct(4) by blast
        then show "sameComp u y z \<or> (sameComp u y a \<and> sameComp u z b) \<or> (sameComp u y b \<and> sameComp u z a)"
          using sy sz ra rb unfolding sameComp_def by blast
      qed
      show ?thesis using un wf' mono ab exact by blast
    qed
  qed
qed

section \<open>The passes keep the forest well-founded\<close>

lemma makeUnionFind_parent_gen:
  "parent (fold (\<lambda>x u. \<lparr>parent = (parent u)(x \<mapsto> x), size_uf = (size_uf u)(x \<mapsto> 1)\<rparr>) items u0) x =
     (if x \<in> set items then Some x else parent u0 x)"
  by (induction items arbitrary: u0) auto

lemma makeUnionFind_parent:
  "parent (makeUnionFind items) x = (if x \<in> set items then Some x else None)"
  unfolding makeUnionFind_def makeUnionFind_parent_gen by simp

lemma makeUnionFind_up: "up (makeUnionFind items) = {}"
  by (auto simp: up_def makeUnionFind_parent)

lemma makeUnionFind_inv: "uf_inv (makeUnionFind items)"
  by (simp add: uf_inv_def makeUnionFind_up)

lemma uf_addEvidence [simp]: "uf (addEvidence a b reason st) = uf st"
  by (simp add: addEvidence_def)

lemma connectLoop_spec:
  assumes "wf (up (uf st))"
  shows "\<exists>st'. connectLoop first ms reason st = Some st' \<and> wf (up (uf st')) \<and>
           (\<forall>y z. sameComp (uf st) y z \<longrightarrow> sameComp (uf st') y z) \<and>
           (first \<noteq> [] \<and> [] \<notin> set ms \<longrightarrow> (\<forall>m \<in> set ms. sameComp (uf st') first m))"
  using assms
proof (induction ms arbitrary: st)
  case Nil
  then show ?case by simp
next
  case (Cons m ms)
  from union_uf_spec[OF Cons.prems, of first m] obtain u1 where
    un: "union_uf (uf st) first m = Some u1" and wf1: "wf (up u1)"
    and mono1: "\<forall>y z. sameComp (uf st) y z \<longrightarrow> sameComp u1 y z"
    and ab: "first \<noteq> [] \<and> m \<noteq> [] \<longrightarrow> sameComp u1 first m"
    by blast
  let ?st1 = "addEvidence first m reason (st\<lparr>uf := u1\<rparr>)"
  have u1: "uf ?st1 = u1" by simp
  have "wf (up (uf ?st1))" using wf1 by simp
  from Cons.IH[OF this] obtain st' where
    cl: "connectLoop first ms reason ?st1 = Some st'" and wf': "wf (up (uf st'))"
    and mono': "\<forall>y z. sameComp (uf ?st1) y z \<longrightarrow> sameComp (uf st') y z"
    and all': "first \<noteq> [] \<and> [] \<notin> set ms \<longrightarrow> (\<forall>m \<in> set ms. sameComp (uf st') first m)"
    by blast
  have res: "connectLoop first (m # ms) reason st = Some st'" using un cl by simp
  have mono: "\<forall>y z. sameComp (uf st) y z \<longrightarrow> sameComp (uf st') y z"
    using mono1 mono' u1 by metis
  have all: "first \<noteq> [] \<and> [] \<notin> set (m # ms) \<longrightarrow> (\<forall>m' \<in> set (m # ms). sameComp (uf st') first m')"
  proof (intro impI ballI)
    fix m' assume h: "first \<noteq> [] \<and> [] \<notin> set (m # ms)" and m': "m' \<in> set (m # ms)"
    show "sameComp (uf st') first m'"
    proof (cases "m' = m")
      case True
      have "sameComp u1 first m" using ab h by auto
      then show ?thesis using mono' u1 True by metis
    next
      case False
      then have "m' \<in> set ms" using m' by simp
      moreover have "first \<noteq> [] \<and> [] \<notin> set ms" using h by auto
      ultimately show ?thesis using all' by blast
    qed
  qed
  show ?case using res wf' mono all by blast
qed

lemma connectMany_spec:
  assumes wf: "wf (up (uf st))"
  shows "\<exists>st'. connectMany mems reason st = Some st' \<and> wf (up (uf st')) \<and>
           (\<forall>y z. sameComp (uf st) y z \<longrightarrow> sameComp (uf st') y z) \<and>
           (2 \<le> length mems \<and> [] \<notin> set mems \<longrightarrow>
              (\<forall>x \<in> set mems. \<forall>y \<in> set mems. sameComp (uf st') x y))"
proof (cases "length mems < 2")
  case True
  then show ?thesis using wf by (simp add: connectMany_def)
next
  case False
  then obtain first rest where mems: "mems = first # rest" by (cases mems) auto
  from connectLoop_spec[OF wf, of first rest reason] obtain st' where
    cl: "connectLoop first rest reason st = Some st'" and wf': "wf (up (uf st'))"
    and mono: "\<forall>y z. sameComp (uf st) y z \<longrightarrow> sameComp (uf st') y z"
    and all: "first \<noteq> [] \<and> [] \<notin> set rest \<longrightarrow> (\<forall>m \<in> set rest. sameComp (uf st') first m)"
    by blast
  have res: "connectMany mems reason st = Some st'" using False cl mems by (simp add: connectMany_def)
  have conn: "2 \<le> length mems \<and> [] \<notin> set mems \<longrightarrow>
              (\<forall>x \<in> set mems. \<forall>y \<in> set mems. sameComp (uf st') x y)"
  proof (intro impI ballI)
    fix x y assume h: "2 \<le> length mems \<and> [] \<notin> set mems" and x: "x \<in> set mems" and y: "y \<in> set mems"
    have ff: "sameComp (uf st') first first"
      using rootOf_total[OF wf'] by (simp add: sameComp_refl_iff)
    have fm: "\<And>m. m \<in> set mems \<Longrightarrow> sameComp (uf st') first m"
      using all h ff mems by auto
    show "sameComp (uf st') x y"
      using fm[OF x] fm[OF y] sameComp_sym sameComp_trans by blast
  qed
  show ?thesis using res wf' mono conn by blast
qed

lemma for_each_inv:
  assumes step: "\<And>x st. I st \<Longrightarrow> \<exists>st'. f x st = Some st' \<and> I st'"
    and init: "I st"
  shows "\<exists>st'. for_each f xs st = Some st' \<and> I st'"
  using init
proof (induction xs arbitrary: st)
  case Nil
  then show ?case by simp
next
  case (Cons x xs)
  from step[OF Cons.prems, of x] obtain st1 where s1: "f x st = Some st1" and i1: "I st1" by blast
  from Cons.IH[OF i1] obtain st' where "for_each f xs st1 = Some st'" "I st'" by blast
  then show ?case using s1 by simp
qed

lemma connectMany_inv: "inv_st st \<Longrightarrow> \<exists>st'. connectMany mems reason st = Some st' \<and> inv_st st'"
  using connectMany_spec[of st mems reason] by (auto simp: inv_st_def uf_inv_def)

lemma linkVisit_inv: "inv_st st \<Longrightarrow> \<exists>st'. linkVisit e st = Some st' \<and> inv_st st'"
  by (cases e) (simp add: linkVisit_def connectMany_inv)

lemma domainVisit_inv: "inv_st st \<Longrightarrow> \<exists>st'. domainVisit e st = Some st' \<and> inv_st st'"
  by (cases e) (simp add: domainVisit_def connectMany_inv)

lemma stemVisit_inv: "inv_st st \<Longrightarrow> \<exists>st'. stemVisit e st = Some st' \<and> inv_st st'"
  by (cases e) (simp add: stemVisit_def connectMany_inv)

lemma baseHandleVisit_inv: "inv_st st \<Longrightarrow> \<exists>st'. baseHandleVisit e st = Some st' \<and> inv_st st'"
  by (cases e) (simp add: baseHandleVisit_def connectMany_inv)

lemma walletVisit_inv: "inv_st st \<Longrightarrow> \<exists>st'. walletVisit e st = Some st' \<and> inv_st st'"
  by (cases e) (simp add: walletVisit_def connectMany_inv)

lemma funderVisit_inv: "inv_st st \<Longrightarrow> \<exists>st'. funderVisit e st = Some st' \<and> inv_st st'"
  by (cases e) (simp add: funderVisit_def connectMany_inv)

lemma initialState_inv: "inv_st (initialState inp)"
  by (simp add: inv_st_def initialState_def makeUnionFind_inv)

lemma passesBeforeWallets_total:
  "\<exists>st. passesBeforeWallets urlHostname inp = Some st \<and> inv_st st"
proof -
  obtain st1 where s1: "for_each linkVisit (linkToActors inp) (initialState inp) = Some st1" and i1: "inv_st st1"
    using for_each_inv[of inv_st linkVisit, OF linkVisit_inv initialState_inv] by blast
  obtain st2 where s2: "for_each domainVisit (domainToActors urlHostname inp) st1 = Some st2" and i2: "inv_st st2"
    using for_each_inv[of inv_st domainVisit, OF domainVisit_inv i1] by blast
  obtain st3 where s3: "for_each stemVisit (stemToActors inp) st2 = Some st3" and i3: "inv_st st3"
    using for_each_inv[of inv_st stemVisit, OF stemVisit_inv i2] by blast
  obtain st4 where s4: "for_each baseHandleVisit (baseHandleToActors inp) st3 = Some st4" and i4: "inv_st st4"
    using for_each_inv[of inv_st baseHandleVisit, OF baseHandleVisit_inv i3] by blast
  show ?thesis using s1 s2 s3 s4 i4 by (simp add: passesBeforeWallets_def)
qed

text \<open>
  The passes always come to an end: either building the wallet map throws, or all passes
  return and leave a well-founded forest.
\<close>

lemma runPasses_cases:
  "(\<exists>e. walletToActors argLimit inp = Inl e \<and>
        passesBeforeFunders argLimit urlHostname inp = Some (Inl e) \<and>
        runPasses argLimit urlHostname inp = Some (Inl e)) \<or>
   (\<exists>wm st5 st6. walletToActors argLimit inp = Inr wm \<and>
        passesBeforeFunders argLimit urlHostname inp = Some (Inr st5) \<and> inv_st st5 \<and>
        runPasses argLimit urlHostname inp = Some (Inr st6) \<and> inv_st st6)"
proof -
  obtain st4 where s4: "passesBeforeWallets urlHostname inp = Some st4" and i4: "inv_st st4"
    using passesBeforeWallets_total by blast
  show ?thesis
  proof (cases "walletToActors argLimit inp")
    case (Inl e)
    then have "passesBeforeFunders argLimit urlHostname inp = Some (Inl e)"
      using s4 by (simp add: passesBeforeFunders_def)
    moreover from this have "runPasses argLimit urlHostname inp = Some (Inl e)"
      by (simp add: runPasses_def)
    ultimately show ?thesis using Inl by blast
  next
    case (Inr wm)
    obtain st5 where s5: "for_each walletVisit wm st4 = Some st5" and i5: "inv_st st5"
      using for_each_inv[of inv_st walletVisit, OF walletVisit_inv i4] by blast
    obtain st6 where s6: "for_each funderVisit (funderToWallets inp) st5 = Some st6" and i6: "inv_st st6"
      using for_each_inv[of inv_st funderVisit, OF funderVisit_inv i5] by blast
    have p5: "passesBeforeFunders argLimit urlHostname inp = Some (Inr st5)"
      using s4 Inr s5 by (simp add: passesBeforeFunders_def)
    then have "runPasses argLimit urlHostname inp = Some (Inr st6)"
      using s6 by (simp add: runPasses_def)
    then show ?thesis using Inr p5 i5 i6 by blast
  qed
qed

section \<open>Components, groups and identifiers\<close>

lemma find_root_rootOf:
  assumes "wf (up u)"
  shows "find_root u a = Some r \<longleftrightarrow> rootOf u a r"
proof -
  from find_uf_spec[OF assms, of a] obtain r' u' where
    f: "find_uf u a = Some (r', u')" and r': "rootOf u a r'" by blast
  show ?thesis using f r' rootOf_det[of u a r r'] by (auto simp: find_root_def)
qed

lemma rootToMembers_fold:
  assumes "wf (up u)" and "\<forall>a. rootOf u a (rt a)"
  shows "rootToMembers as u m = Some (fold (\<lambda>a m. push_to_map m (rt a) a) as m)"
  using assms
proof (induction as arbitrary: u m)
  case Nil
  then show ?case by simp
next
  case (Cons a as)
  from find_uf_spec[OF Cons.prems(1), of a] obtain r u' where
    f: "find_uf u a = Some (r, u')" and r: "rootOf u a r" and wf': "wf (up u')"
    and same: "\<forall>y s. rootOf u' y s = rootOf u y s"
    by blast
  have "r = rt a" using r Cons.prems(2) rootOf_det by blast
  moreover have "\<forall>a. rootOf u' a (rt a)" using same Cons.prems(2) by blast
  ultimately show ?case using f Cons.IH[OF wf'] by simp
qed

lemma rootOf_choice: "wf (up u) \<Longrightarrow> \<exists>rt. \<forall>a. rootOf u a (rt a)"
  using rootOf_total by metis

subsection \<open>Insertion-ordered maps\<close>

lemma map_of_map_set: "map_of (map_set m k v) = (map_of m)(k \<mapsto> v)"
  by (induction m k v rule: map_set.induct) (auto simp: fun_eq_iff)

lemma keys_map_set:
  "map fst (map_set m k v) = (if k \<in> fst ` set m then map fst m else map fst m @ [k])"
  by (induction m k v rule: map_set.induct) auto

lemma distinct_map_set: "distinct (map fst m) \<Longrightarrow> distinct (map fst (map_set m k v))"
  by (auto simp: keys_map_set)

lemma map_of_push:
  "map_of (push_to_map m k a) = (map_of m)(k \<mapsto> (case map_of m k of None \<Rightarrow> [] | Some xs \<Rightarrow> xs) @ [a])"
  by (simp add: push_to_map_def map_get_def map_of_map_set split: option.splits)

lemma distinct_push: "distinct (map fst m) \<Longrightarrow> distinct (map fst (push_to_map m k a))"
  by (simp add: push_to_map_def distinct_map_set split: option.splits)

lemma distinct_fold_push:
  "distinct (map fst m) \<Longrightarrow> distinct (map fst (fold (\<lambda>a m. push_to_map m (rt a) a) as m))"
  by (induction as arbitrary: m) (simp_all add: distinct_push)

lemma map_of_fold_push:
  "map_of (fold (\<lambda>a m. push_to_map m (rt a) a) as m) r =
     (if filter (\<lambda>a. rt a = r) as = [] then map_of m r
      else Some ((case map_of m r of None \<Rightarrow> [] | Some xs \<Rightarrow> xs) @ filter (\<lambda>a. rt a = r) as))"
proof (induction as arbitrary: m)
  case Nil
  then show ?case by simp
next
  case (Cons a as)
  show ?case
    by (simp add: Cons.IH map_of_push split: option.splits)
qed

lemma rtm_entries:
  assumes "(r, ms) \<in> set (fold (\<lambda>a m. push_to_map m (rt a) a) as [])"
  shows "ms = filter (\<lambda>a. rt a = r) as \<and> ms \<noteq> []"
proof -
  let ?rtm = "fold (\<lambda>a m. push_to_map m (rt a) a) as []"
  have "distinct (map fst ?rtm)" by (rule distinct_fold_push) simp
  then have "map_of ?rtm r = Some ms" using assms by simp
  then show ?thesis by (simp add: map_of_fold_push split: if_splits)
qed

subsection \<open>buildGroups\<close>

lemma members_makeGroup [simp]: "members (makeGroup led cid mems0) = sort mems0"
  by (simp add: makeGroup_def Let_def)

lemma controllerId_makeGroup [simp]: "controllerId (makeGroup led cid mems0) = cid"
  by (simp add: makeGroup_def Let_def)

lemma score_makeGroup:
  "score (makeGroup led cid mems0) = scoreOf (length mems0) (collectReasons led (sort mems0))"
  by (simp add: makeGroup_def Let_def)

lemma evidence_makeGroup:
  "evidence (makeGroup led cid mems0) = take 8 (collectReasons led (sort mems0))"
  by (simp add: makeGroup_def Let_def)

lemma fold_visit_snoc:
  "fold (\<lambda>(root, mems0) bs. visitComponent led mgs mems0 bs) (rtm @ [(r, ms)]) bs0 =
     visitComponent led mgs ms (fold (\<lambda>(root, mems0) bs. visitComponent led mgs mems0 bs) rtm bs0)"
  by simp

lemma groupsAcc_visit:
  "groupsAcc (visitComponent led mgs ms bs) =
     (if int (length ms) < max 2 mgs then groupsAcc bs
      else groupsAcc bs @ [makeGroup led (nextId bs) ms])"
  by (simp add: visitComponent_def Let_def)

lemma nextId_visit:
  "nextId (visitComponent led mgs ms bs) =
     (if int (length ms) < max 2 mgs then nextId bs else nextId bs + 1)"
  by (simp add: visitComponent_def Let_def)

lemma map_of_fold_map_set:
  "map_of (fold (\<lambda>m ids. map_set ids m c) ms ids) x = (if x \<in> set ms then Some c else map_of ids x)"
  by (induction ms arbitrary: ids) (auto simp: map_of_map_set)

lemma keys_fold_map_set:
  "fst ` set (fold (\<lambda>m ids. map_set ids m c) ms ids) = fst ` set ids \<union> set ms"
proof (induction ms arbitrary: ids)
  case Nil
  then show ?case by simp
next
  case (Cons m ms)
  have "fst ` set (map_set ids m c) = insert m (fst ` set ids)"
    using keys_map_set[of ids m c] by (metis (no_types, lifting) insert_absorb list.set_map set_append
        list.simps(15) Un_insert_right sup_bot.right_neutral empty_set)
  then show ?case by (simp add: Cons.IH)
qed

lemma idsAcc_visit:
  "idsAcc (visitComponent led mgs ms bs) =
     (if int (length ms) < max 2 mgs then idsAcc bs
      else fold (\<lambda>m ids. map_set ids m (nextId bs)) (sort ms) (idsAcc bs))"
  by (simp add: visitComponent_def Let_def)

lemma groups_from_components:
  "g \<in> set (groupsAcc (fold (\<lambda>(root, mems0) bs. visitComponent led mgs mems0 bs) rtm bs0)) \<Longrightarrow>
     g \<in> set (groupsAcc bs0) \<or>
     (\<exists>root mems0 cid. (root, mems0) \<in> set rtm \<and> \<not> int (length mems0) < max 2 mgs \<and>
        g = makeGroup led cid mems0)"
proof (induction rtm arbitrary: g rule: rev_induct)
  case Nil
  then show ?case by simp
next
  case (snoc e rtm)
  obtain r ms where e: "e = (r, ms)" by (cases e)
  let ?B = "fold (\<lambda>(root, mems0) bs. visitComponent led mgs mems0 bs) rtm bs0"
  from snoc.prems have "g \<in> set (groupsAcc (visitComponent led mgs ms ?B))" using e by simp
  then have "g \<in> set (groupsAcc ?B) \<or> (\<not> int (length ms) < max 2 mgs \<and> g = makeGroup led (nextId ?B) ms)"
    by (auto simp: groupsAcc_visit split: if_splits)
  then show ?case
  proof
    assume "g \<in> set (groupsAcc ?B)"
    from snoc.IH[OF this] show ?thesis by auto
  next
    assume "\<not> int (length ms) < max 2 mgs \<and> g = makeGroup led (nextId ?B) ms"
    then show ?thesis using e by auto
  qed
qed

lemma ids_consecutive_step:
  "map controllerId (groupsAcc bs) = [0..<nextId bs] \<Longrightarrow>
   map controllerId (groupsAcc (visitComponent led mgs ms bs)) = [0..<nextId (visitComponent led mgs ms bs)]"
  by (simp add: groupsAcc_visit nextId_visit)

lemma ids_consecutive_fold:
  "map controllerId (groupsAcc bs0) = [0..<nextId bs0] \<Longrightarrow>
   map controllerId (groupsAcc (fold (\<lambda>(root, mems0) bs. visitComponent led mgs mems0 bs) rtm bs0))
     = [0..<nextId (fold (\<lambda>(root, mems0) bs. visitComponent led mgs mems0 bs) rtm bs0)]"
proof (induction rtm arbitrary: bs0)
  case Nil
  then show ?case by simp
next
  case (Cons e rtm)
  obtain r ms where e: "e = (r, ms)" by (cases e)
  show ?case using Cons.IH[OF ids_consecutive_step[OF Cons.prems, of led mgs ms]] e by simp
qed

lemma ids_consecutive:
  "map controllerId (groupsAcc (buildGroups led mgs rtm)) = [0..<length (groupsAcc (buildGroups led mgs rtm))]"
proof -
  let ?B = "buildGroups led mgs rtm"
  have eq: "map controllerId (groupsAcc ?B) = [0..<nextId ?B]"
    unfolding buildGroups_def by (rule ids_consecutive_fold) simp
  then have "length (groupsAcc ?B) = nextId ?B" by (metis length_map length_upt diff_zero)
  then show ?thesis using eq by simp
qed

lemma id_keys_fold:
  "fst ` set (idsAcc bs0) = (\<Union>g\<in>set (groupsAcc bs0). set (members g)) \<Longrightarrow>
   fst ` set (idsAcc (fold (\<lambda>(root, mems0) bs. visitComponent led mgs mems0 bs) rtm bs0)) =
     (\<Union>g\<in>set (groupsAcc (fold (\<lambda>(root, mems0) bs. visitComponent led mgs mems0 bs) rtm bs0)). set (members g))"
proof (induction rtm arbitrary: bs0)
  case Nil
  then show ?case by simp
next
  case (Cons e rtm)
  obtain r ms where e: "e = (r, ms)" by (cases e)
  have "fst ` set (idsAcc (visitComponent led mgs ms bs0)) =
        (\<Union>g\<in>set (groupsAcc (visitComponent led mgs ms bs0)). set (members g))"
    using Cons.prems by (auto simp: idsAcc_visit groupsAcc_visit keys_fold_map_set)
  from Cons.IH[OF this] show ?case using e by simp
qed

lemma id_keys:
  "fst ` set (idsAcc (buildGroups led mgs rtm)) =
     (\<Union>g\<in>set (groupsAcc (buildGroups led mgs rtm)). set (members g))"
  unfolding buildGroups_def by (rule id_keys_fold) simp

lemma ids_of_members:
  assumes dist: "distinct (map fst rtm)"
    and own: "\<forall>(r, ms) \<in> set rtm. \<forall>a \<in> set ms. rt a = r"
  shows "(\<forall>g \<in> set (groupsAcc (buildGroups led mgs rtm)). \<forall>m \<in> set (members g).
            map_of (idsAcc (buildGroups led mgs rtm)) m = Some (controllerId g)) \<and>
         (\<forall>g \<in> set (groupsAcc (buildGroups led mgs rtm)). \<exists>(r, ms) \<in> set rtm. set (members g) = set ms)"
  using assms unfolding buildGroups_def
proof (induction rtm rule: rev_induct)
  case Nil
  then show ?case by simp
next
  case (snoc e rtm)
  obtain r ms where e: "e = (r, ms)" by (cases e)
  let ?B = "fold (\<lambda>(root, mems0) bs. visitComponent led mgs mems0 bs) rtm
              \<lparr>groupsAcc = [], idsAcc = [], nextId = 0\<rparr>"
  have d: "distinct (map fst rtm)" and rnew: "r \<notin> fst ` set rtm" using snoc.prems(1) e by auto
  have o: "\<forall>(r, ms) \<in> set rtm. \<forall>a \<in> set ms. rt a = r" using snoc.prems(2) by auto
  have onew: "\<forall>a \<in> set ms. rt a = r" using snoc.prems(2) e by auto
  from snoc.IH[OF d o] have
    ih1: "\<forall>g \<in> set (groupsAcc ?B). \<forall>m \<in> set (members g). map_of (idsAcc ?B) m = Some (controllerId g)"
    and ih2: "\<forall>g \<in> set (groupsAcc ?B). \<exists>(r, ms) \<in> set rtm. set (members g) = set ms"
    by blast+
  have disj: "\<And>g m. g \<in> set (groupsAcc ?B) \<Longrightarrow> m \<in> set (members g) \<Longrightarrow> m \<notin> set ms"
  proof
    fix g m assume g: "g \<in> set (groupsAcc ?B)" and m: "m \<in> set (members g)" and mm: "m \<in> set ms"
    from ih2 g obtain r' ms' where in': "(r', ms') \<in> set rtm" and eq: "set (members g) = set ms'" by blast
    have "rt m = r'" using o in' m eq by blast
    moreover have "rt m = r" using onew mm by blast
    ultimately show False using rnew in' by force
  qed
  let ?B' = "visitComponent led mgs ms ?B"
  have fold_eq: "fold (\<lambda>(root, mems0) bs. visitComponent led mgs mems0 bs) (rtm @ [e])
              \<lparr>groupsAcc = [], idsAcc = [], nextId = 0\<rparr> = ?B'" using e by simp
  show ?case
  proof (cases "int (length ms) < max 2 mgs")
    case True
    then have "?B' = ?B" by (simp add: visitComponent_def)
    then show ?thesis using ih1 ih2 fold_eq by auto
  next
    case False
    let ?g = "makeGroup led (nextId ?B) ms"
    have ga: "groupsAcc ?B' = groupsAcc ?B @ [?g]" using False by (simp add: groupsAcc_visit)
    have ia: "\<And>x. map_of (idsAcc ?B') x = (if x \<in> set ms then Some (nextId ?B) else map_of (idsAcc ?B) x)"
      using False by (simp add: idsAcc_visit map_of_fold_map_set)
    have p1: "\<forall>g \<in> set (groupsAcc ?B'). \<forall>m \<in> set (members g). map_of (idsAcc ?B') m = Some (controllerId g)"
    proof (intro ballI)
      fix g m assume g: "g \<in> set (groupsAcc ?B')" and m: "m \<in> set (members g)"
      show "map_of (idsAcc ?B') m = Some (controllerId g)"
      proof (cases "g = ?g")
        case True
        then show ?thesis using m ia by simp
      next
        case False
        then have gin: "g \<in> set (groupsAcc ?B)" using g ga by simp
        then have "m \<notin> set ms" using disj m by blast
        then show ?thesis using ia ih1 gin m by simp
      qed
    qed
    have p2: "\<forall>g \<in> set (groupsAcc ?B'). \<exists>(r, ms) \<in> set (rtm @ [e]). set (members g) = set ms"
    proof
      fix g assume g: "g \<in> set (groupsAcc ?B')"
      show "\<exists>(r, ms) \<in> set (rtm @ [e]). set (members g) = set ms"
      proof (cases "g = ?g")
        case True
        then show ?thesis using e by simp
      next
        case False
        then have "g \<in> set (groupsAcc ?B)" using g ga by simp
        then show ?thesis using ih2 by fastforce
      qed
    qed
    show ?thesis using p1 p2 fold_eq by simp
  qed
qed

section \<open>Evaluation of the concrete inputs\<close>

lemma trio_result: "computeControllerGroups exampleArgLimit exampleHostname inputTrio = Some (Inr outputTrio)"
  by code_simp

lemma two_groups_result:
  "computeControllerGroups exampleArgLimit exampleHostname inputTwoGroups = Some (Inr outputTwoGroups)"
  by code_simp

text \<open>
  The thresholds on whole runs: a domain shared by three actors groups them, shared by two
  it does not; a handle stem shared by four actors groups them, shared by three it does not.
\<close>

lemma threshold_examples:
  "computeControllerGroups exampleArgLimit exampleHostname inputDomain3 =
     Some (Inr \<lparr>groups = [\<lparr>controllerId = 0, members = [''p'', ''q'', ''r''], score = 9 / 20,
                        evidence = [''Shared domain: a.io'']\<rparr>],
           controllerIdByActor = [(''p'', 0), (''q'', 0), (''r'', 0)]\<rparr>) \<and>
   computeControllerGroups exampleArgLimit exampleHostname inputDomain2 = Some (Inr \<lparr>groups = [], controllerIdByActor = []\<rparr>) \<and>
   computeControllerGroups exampleArgLimit exampleHostname inputStem4 =
     Some (Inr \<lparr>groups = [\<lparr>controllerId = 0, members = [''p'', ''q'', ''r'', ''s''], score = 9 / 20,
                        evidence = [''Shared handle stem: bot'']\<rparr>],
           controllerIdByActor = [(''p'', 0), (''q'', 0), (''r'', 0), (''s'', 0)]\<rparr>) \<and>
   computeControllerGroups exampleArgLimit exampleHostname inputStem3 = Some (Inr \<lparr>groups = [], controllerIdByActor = []\<rparr>)"
  by code_simp

lemma nine_result:
  "computeControllerGroups exampleArgLimit exampleHostname inputNine =
     Some (Inr \<lparr>groups = [groupNine], controllerIdByActor = [(''a'', 0), (''b'', 0)]\<rparr>)"
  by code_simp

section \<open>Claims settled by evaluation\<close>

text \<open>
  C3. The claim: every wallet string of the shared-wallet pass is lower-cased before set
  membership, the extra wallets included, so an address in upper case among one actor's
  extra wallets and the same address in lower case in another actor's bio are one shared
  wallet and the two actors are united. The code lower-cases the addresses scanned from
  bios and links and the actor identifier, but pushes the extra wallets as they are: on
  \<open>inputMixedCase\<close> the two spellings are two keys of \<open>walletToActors\<close>, each with one
  actor, and no group is returned.
\<close>

theorem C3_extra_wallets_keep_their_case:
  "walletToActors exampleArgLimit inputMixedCase = Inr [(walletUpper, [''a'']), (walletLower, [''b''])] \<and>
   computeControllerGroups exampleArgLimit exampleHostname inputMixedCase =
     Some (Inr \<lparr>groups = [], controllerIdByActor = []\<rparr>)"
  by code_simp

text \<open>
  C9. The claim: after any sequence of unions, \<open>find a = find b\<close> iff \<open>a\<close> and \<open>b\<close> are
  connected by a chain of the unions performed. The test \<open>!p\<close> in \<open>find\<close> also holds for
  a parent that is the empty string, so a node attached under the empty string stays its
  own root: after the union of the empty string and \<open>b\<close> on the forest of these two, the
  parent of \<open>b\<close> is the empty string, and \<open>find\<close> still returns \<open>b\<close> for \<open>b\<close>.
\<close>

theorem C9_union_with_empty_string_does_not_join:
  "Option.bind (union_uf (makeUnionFind [[], ''b'']) [] ''b'')
     (\<lambda>u. Some (parent u ''b'', find_root u [], find_root u ''b''))
   = Some (Some [], Some [], Some ''b'')"
  by code_simp

text \<open>
  C10. There is an input for which a returned group's score includes the bonus for a reason
  starting with \<open>Shared wallet:\<close> while no string of the returned evidence has that prefix.
  On \<open>inputNine\<close> the only pair has nine reasons, eight links and then the wallet; the scan
  merges all nine, the score is 0.25 + 0 + 0.25 + 0.15, and the evidence is the first eight.
\<close>

theorem C10_bonus_without_evidence:
  "computeControllerGroups exampleArgLimit exampleHostname inputNine =
     Some (Inr \<lparr>groups = [groupNine], controllerIdByActor = [(''a'', 0), (''b'', 0)]\<rparr>) \<and>
   length (collectReasons (finalLedger exampleArgLimit exampleHostname inputNine) (members groupNine)) = 9 \<and>
   someStartsWith (collectReasons (finalLedger exampleArgLimit exampleHostname inputNine) (members groupNine))
     ''Shared wallet:'' \<and>
   \<not> someStartsWith (evidence groupNine) ''Shared wallet:'' \<and>
   score groupNine = 1 / 4 + 0 + 1 / 4 + 15 / 100"
  by code_simp

section \<open>Claims about the returned groups\<close>

text \<open>
  A run always comes to an end: it throws while building the wallet map, or it returns the
  groups built from the components of the final forest.
\<close>

lemma compute_cases:
  "(\<exists>e. walletToActors argLimit inp = Inl e \<and>
        computeControllerGroups argLimit urlHostname inp = Some (Inl e)) \<or>
   (\<exists>wm st rt. walletToActors argLimit inp = Inr wm \<and>
     runPasses argLimit urlHostname inp = Some (Inr st) \<and> wf (up (uf st)) \<and>
     (\<forall>a. rootOf (uf st) a (rt a)) \<and>
     rootToMembers (actors inp) (uf st) [] = Some (fold (\<lambda>a m. push_to_map m (rt a) a) (actors inp) []) \<and>
     computeControllerGroups argLimit urlHostname inp =
       Some (Inr (finish (buildGroups (evidenceByPair st) (minGroupSize inp)
          (fold (\<lambda>a m. push_to_map m (rt a) a) (actors inp) [])))))"
proof -
  from runPasses_cases[of argLimit inp urlHostname] show ?thesis
  proof
    assume "\<exists>e. walletToActors argLimit inp = Inl e \<and>
        passesBeforeFunders argLimit urlHostname inp = Some (Inl e) \<and>
        runPasses argLimit urlHostname inp = Some (Inl e)"
    then obtain e where "walletToActors argLimit inp = Inl e"
      "runPasses argLimit urlHostname inp = Some (Inl e)" by blast
    then show ?thesis by (simp add: computeControllerGroups_def)
  next
    assume "\<exists>wm st5 st6. walletToActors argLimit inp = Inr wm \<and>
        passesBeforeFunders argLimit urlHostname inp = Some (Inr st5) \<and> inv_st st5 \<and>
        runPasses argLimit urlHostname inp = Some (Inr st6) \<and> inv_st st6"
    then obtain wm st where wm: "walletToActors argLimit inp = Inr wm"
      and rp: "runPasses argLimit urlHostname inp = Some (Inr st)" and inv: "inv_st st" by blast
    have wf: "wf (up (uf st))" using inv by (simp add: inv_st_def uf_inv_def)
    obtain rt where rt: "\<forall>a. rootOf (uf st) a (rt a)" using rootOf_choice[OF wf] by blast
    have rtm: "rootToMembers (actors inp) (uf st) [] = Some (fold (\<lambda>a m. push_to_map m (rt a) a) (actors inp) [])"
      using wf rt by (rule rootToMembers_fold)
    have "computeControllerGroups argLimit urlHostname inp =
       Some (Inr (finish (buildGroups (evidenceByPair st) (minGroupSize inp)
          (fold (\<lambda>a m. push_to_map m (rt a) a) (actors inp) []))))"
      using rp rtm by (simp add: computeControllerGroups_def)
    then show ?thesis using wm rp wf rt rtm by blast
  qed
qed

lemma compute_structure:
  assumes "computeControllerGroups argLimit urlHostname inp = Some (Inr out)"
  shows "\<exists>wm st rt. walletToActors argLimit inp = Inr wm \<and>
     runPasses argLimit urlHostname inp = Some (Inr st) \<and> wf (up (uf st)) \<and>
     (\<forall>a. rootOf (uf st) a (rt a)) \<and>
     rootToMembers (actors inp) (uf st) [] = Some (fold (\<lambda>a m. push_to_map m (rt a) a) (actors inp) []) \<and>
     out = finish (buildGroups (evidenceByPair st) (minGroupSize inp)
          (fold (\<lambda>a m. push_to_map m (rt a) a) (actors inp) []))"
  using compute_cases[of argLimit inp urlHostname] assms by auto

lemma groups_of_buildGroups:
  assumes "g \<in> set (groupsAcc (buildGroups led mgs rtm))"
  obtains root mems0 cid where "(root, mems0) \<in> set rtm"
    and "\<not> int (length mems0) < max 2 mgs" and "g = makeGroup led cid mems0"
proof -
  from assms have "g \<in> set (groupsAcc \<lparr>groupsAcc = [], idsAcc = [], nextId = 0\<rparr>) \<or>
     (\<exists>root mems0 cid. (root, mems0) \<in> set rtm \<and> \<not> int (length mems0) < max 2 mgs \<and>
        g = makeGroup led cid mems0)"
    unfolding buildGroups_def by (rule groups_from_components)
  then have "\<exists>root mems0 cid. (root, mems0) \<in> set rtm \<and> \<not> int (length mems0) < max 2 mgs \<and>
        g = makeGroup led cid mems0" by simp
  then show ?thesis using that by (elim exE conjE)
qed

lemma groups_finish: "set (groups (finish bs)) = set (groupsAcc bs)"
  by (simp add: finish_def)

lemma scoreOf_formula:
  "scoreOf n R =
     min 1 (1 / 4 + min ((rat_of_nat n - 2) / 10) (1 / 4)
            + (if \<exists>r \<in> set R. startsWith r ''Shared wallet:'' then 1 / 4 else 0)
            + (if \<exists>r \<in> set R. startsWith r ''Common funder:'' then 1 / 4 else 0)
            + (if \<exists>r \<in> set R. startsWith r ''Shared link:'' then 15 / 100 else 0)
            + (if \<exists>r \<in> set R. startsWith r ''Shared domain:'' then 10 / 100 else 0))"
  unfolding scoreOf_def Let_def someStartsWith_def list_ex_iff
  by (simp add: min.commute add.assoc)

lemma set_fold_set_add: "set (fold (\<lambda>x s. set_add s x) xs s0) = set s0 \<union> set xs"
  by (induction xs arbitrary: s0) (auto simp: set_add_def)

lemma set_new_set [simp]: "set (new_set xs) = set xs"
  by (simp add: new_set_def set_fold_set_add)

lemma new_set_filter: "filter P (new_set (filter P xs)) = new_set (filter P xs)"
  by (simp add: filter_id_conv)

lemma walletsOf_shaped:
  "walletsOf argLimit inp a = Inr ws \<Longrightarrow> filter looksLikeEvmAddress ws = ws"
  by (auto simp: walletsOf_def Let_def new_set_filter split: sum.splits)

text \<open>\<open>walletsOf\<close> throws exactly when one of its three lists is over the limit.\<close>

lemma walletsOf_raises_iff: "(\<exists>e. walletsOf argLimit inp a = Inl e) \<longleftrightarrow> \<not> spreadsFit argLimit inp a"
  by (auto simp: walletsOf_def spreadsFit_def pushSpread_def Let_def split: sum.splits option.splits if_splits)

lemma walletLoop_raises_iff:
  "(\<exists>e. walletLoop argLimit inp as m = Inl e) \<longleftrightarrow> (\<exists>a \<in> set as. \<not> spreadsFit argLimit inp a)"
proof (induction as arbitrary: m)
  case Nil
  then show ?case by simp
next
  case (Cons a as)
  show ?case
  proof (cases "walletsOf argLimit inp a")
    case (Inl e)
    then have "\<not> spreadsFit argLimit inp a" using walletsOf_raises_iff[of argLimit inp a] by auto
    then show ?thesis using Inl by simp
  next
    case (Inr uniq)
    then have "spreadsFit argLimit inp a" using walletsOf_raises_iff[of argLimit inp a] by auto
    then show ?thesis using Inr Cons.IH by simp
  qed
qed

lemma walletToActors_raises_iff:
  "(\<exists>e. walletToActors argLimit inp = Inl e) \<longleftrightarrow> (\<exists>a \<in> set (actors inp). \<not> spreadsFit argLimit inp a)"
  by (simp add: walletToActors_def walletLoop_raises_iff)

text \<open>
  What is right in the claim of totality: the run never fails to come to an end, and it
  returns a result exactly when the spread lists of every actor fit the argument limit.
\<close>

lemma compute_ends: "\<exists>r. computeControllerGroups argLimit urlHostname inp = Some r"
  using compute_cases[of argLimit inp urlHostname] by blast

lemma compute_returns_iff:
  "(\<exists>out. computeControllerGroups argLimit urlHostname inp = Some (Inr out)) \<longleftrightarrow>
     (\<forall>a \<in> set (actors inp). spreadsFit argLimit inp a)"
proof -
  have "(\<exists>out. computeControllerGroups argLimit urlHostname inp = Some (Inr out)) \<longleftrightarrow>
          \<not> (\<exists>e. walletToActors argLimit inp = Inl e)"
    using compute_cases[of argLimit inp urlHostname] by auto
  then show ?thesis using walletToActors_raises_iff[of argLimit inp] by blast
qed

lemma linksOf_missing: "map_get (linksByActor inp) a = None \<Longrightarrow> linksOf inp a = []"
  by (simp add: linksOf_def)

lemma keys_add_to_set_map: "fst ` set (add_to_set_map m k a) = insert k (fst ` set m)"
proof -
  have "\<And>v. fst ` set (map_set m k v) = insert k (fst ` set m)"
  proof -
    fix v
    have "set (map fst (map_set m k v)) = insert k (set (map fst m))"
      by (simp add: keys_map_set insert_absorb)
    then show "fst ` set (map_set m k v) = insert k (fst ` set m)" by simp
  qed
  then show ?thesis by (simp add: add_to_set_map_def split: option.splits)
qed

lemma funder_keys_inner:
  "\<forall>e \<in> set m. looksLikeEvmAddress (fst e) \<Longrightarrow>
   \<forall>e \<in> set (fold (\<lambda>f m. if \<not> looksLikeEvmAddress f then m else add_to_set_map m f wallet) funders m).
      looksLikeEvmAddress (fst e)"
proof (induction funders arbitrary: m)
  case Nil
  then show ?case by simp
next
  case (Cons f funders)
  have "\<forall>e \<in> set (if \<not> looksLikeEvmAddress f then m else add_to_set_map m f wallet). looksLikeEvmAddress (fst e)"
  proof (cases "looksLikeEvmAddress f")
    case True
    have "fst ` set (add_to_set_map m f wallet) = insert f (fst ` set m)" by (rule keys_add_to_set_map)
    then have "\<forall>k \<in> fst ` set (add_to_set_map m f wallet). looksLikeEvmAddress k"
      using True Cons.prems by auto
    then show ?thesis using True by auto
  next
    case False
    then show ?thesis using Cons.prems by simp
  qed
  from Cons.IH[OF this] show ?case by simp
qed

lemma funder_keys_outer:
  "\<forall>e \<in> set m. looksLikeEvmAddress (fst e) \<Longrightarrow>
   \<forall>e \<in> set (fold (\<lambda>(wallet, funders) m.
        fold (\<lambda>f m. if \<not> looksLikeEvmAddress f then m else add_to_set_map m f wallet) funders m) xs m).
      looksLikeEvmAddress (fst e)"
proof (induction xs arbitrary: m)
  case Nil
  then show ?case by simp
next
  case (Cons x xs)
  obtain wallet funders where x: "x = (wallet, funders)" by (cases x)
  show ?case using Cons.IH[OF funder_keys_inner[where funders=funders and wallet=wallet, OF Cons.prems]] x by simp
qed

lemma funderToWallets_shaped:
  "filter (\<lambda>e. looksLikeEvmAddress (fst e)) (funderToWallets inp) = funderToWallets inp"
  unfolding funderToWallets_def filter_id_conv by (rule funder_keys_outer) simp

lemma extractDomains_skips:
  "extractDomains urlHostname links = extractDomains urlHostname (filter (\<lambda>l. urlHostname l \<noteq> None) links)"
  by (induction links) (auto simp: extractDomains_def)

lemma hex_lower_all: "list_all (\<lambda>c. isHexDigit (toLowerChar c)) ''0123456789abcdefABCDEF''"
  by code_simp

lemma toLowerChar_hex:
  assumes "isHexDigit c"
  shows "isHexDigit (toLowerChar c)"
proof -
  have "c \<in> set ''0123456789abcdefABCDEF''" using assms by (simp only: isHexDigit_def)
  then show ?thesis using hex_lower_all[unfolded list_all_iff] by blast
qed

lemma toLowerCase_0x: "toLowerCase ''0x'' = ''0x''"
  by code_simp

lemma looksLike_toLowerCase: "looksLikeEvmAddress a \<Longrightarrow> looksLikeEvmAddress (toLowerCase a)"
proof -
  assume a: "looksLikeEvmAddress a"
  have "take 2 (toLowerCase a) = toLowerCase (take 2 a)" by (simp add: toLowerCase_def take_map)
  then have t: "take 2 (toLowerCase a) = ''0x''" using a toLowerCase_0x by (simp add: looksLikeEvmAddress_def)
  have "list_all isHexDigit (drop 2 (toLowerCase a))"
    using a toLowerChar_hex by (simp add: looksLikeEvmAddress_def toLowerCase_def drop_map list_all_iff)
  then show ?thesis using a t by (simp add: looksLikeEvmAddress_def toLowerCase_def)
qed

lemma maps_of_inputOverLimit:
  "linkToActors (inputOverLimit n) = [] \<and> domainToActors urlHostname (inputOverLimit n) = [] \<and>
   stemToActors (inputOverLimit n) = [] \<and> baseHandleToActors (inputOverLimit n) = []"
  by (simp add: inputOverLimit_def noInput_def linkToActors_def domainToActors_def stemToActors_def
      baseHandleToActors_def linksOf_def map_get_def extractDomains_def new_set_def)

lemma walletsOf_inputOverLimit: "walletsOf n (inputOverLimit n) ''a'' = Inl RangeError"
  by (simp add: inputOverLimit_def noInput_def walletsOf_def linksOf_def map_get_def pushSpread_def
      extractEvmAddressesFromText_def)

text \<open>
  C8. The claim: \<open>computeControllerGroups\<close> is total and never raises for any input.
  The wallet pass pushes three lists with spread calls, \<open>wallets.push(...xs)\<close>, where the
  other loops push one element at a time; a spread call throws a \<open>RangeError\<close> when the
  list has more elements than the engine accepts as arguments. Whatever that limit is, the
  input with one actor whose list of extra wallets is one longer than the limit makes the
  run throw. (Short of that the claim holds: \<open>compute_ends\<close>, \<open>compute_returns_iff\<close>.)
\<close>

theorem C8_spread_over_the_limit_raises:
  "computeControllerGroups argLimit urlHostname (inputOverLimit argLimit) = Some (Inl RangeError)"
proof -
  have "passesBeforeWallets urlHostname (inputOverLimit argLimit) = Some (initialState (inputOverLimit argLimit))"
    by (simp add: passesBeforeWallets_def maps_of_inputOverLimit)
  moreover have "walletToActors argLimit (inputOverLimit argLimit) = Inl RangeError"
    using walletsOf_inputOverLimit[of argLimit]
    by (simp add: walletToActors_def inputOverLimit_def noInput_def)
  ultimately show ?thesis
    by (simp add: computeControllerGroups_def runPasses_def passesBeforeFunders_def)
qed

text \<open>
  C1. For every group that \<open>computeControllerGroups\<close> returns, the score is
  \<open>min(1, 0.25 + min((memberCount - 2) / 10, 0.25) + 0.25 [wallet] + 0.25 [funder] + 0.15 [link]
  + 0.10 [domain])\<close>, where \<open>memberCount\<close> is the length of the group's member list and
  each bonus is added when some reason collected for the group (the whole accumulated set of
  the pairwise scan over the sorted members) starts with the indicator's prefix.
\<close>

theorem C1_score_formula:
  assumes "computeControllerGroups argLimit urlHostname inp = Some (Inr out)"
    and "g \<in> set (groups out)"
  shows "score g =
     min 1 (1 / 4 + min ((rat_of_nat (length (members g)) - 2) / 10) (1 / 4)
            + (if \<exists>r \<in> set (collectReasons (finalLedger argLimit urlHostname inp) (members g)).
                    startsWith r ''Shared wallet:'' then 1 / 4 else 0)
            + (if \<exists>r \<in> set (collectReasons (finalLedger argLimit urlHostname inp) (members g)).
                    startsWith r ''Common funder:'' then 1 / 4 else 0)
            + (if \<exists>r \<in> set (collectReasons (finalLedger argLimit urlHostname inp) (members g)).
                    startsWith r ''Shared link:'' then 15 / 100 else 0)
            + (if \<exists>r \<in> set (collectReasons (finalLedger argLimit urlHostname inp) (members g)).
                    startsWith r ''Shared domain:'' then 10 / 100 else 0))"
proof -
  from compute_structure[OF assms(1)] obtain st rt where
    rp: "runPasses argLimit urlHostname inp = Some (Inr st)"
    and out: "out = finish (buildGroups (evidenceByPair st) (minGroupSize inp)
          (fold (\<lambda>a m. push_to_map m (rt a) a) (actors inp) []))"
    by blast
  let ?rtm = "fold (\<lambda>a m. push_to_map m (rt a) a) (actors inp) []"
  let ?led = "evidenceByPair st"
  have led: "finalLedger argLimit urlHostname inp = ?led" using rp by (simp add: finalLedger_def)
  have "g \<in> set (groupsAcc (buildGroups ?led (minGroupSize inp) ?rtm))"
    using assms(2) out groups_finish by auto
  then obtain root mems0 cid where g: "g = makeGroup ?led cid mems0"
    by (rule groups_of_buildGroups)
  have "score g = scoreOf (length (members g)) (collectReasons ?led (members g))"
    using g by (simp add: score_makeGroup)
  then show ?thesis unfolding led scoreOf_formula .
qed

theorem C1_witness:
  "computeControllerGroups exampleArgLimit exampleHostname inputTrio = Some (Inr outputTrio) \<and>
   groupTrio \<in> set (groups outputTrio) \<and>
   score groupTrio =
     min 1 (1 / 4 + min ((rat_of_nat (length (members groupTrio)) - 2) / 10) (1 / 4)
            + (if \<exists>r \<in> set (collectReasons (finalLedger exampleArgLimit exampleHostname inputTrio) (members groupTrio)).
                    startsWith r ''Shared wallet:'' then 1 / 4 else 0)
            + (if \<exists>r \<in> set (collectReasons (finalLedger exampleArgLimit exampleHostname inputTrio) (members groupTrio)).
                    startsWith r ''Common funder:'' then 1 / 4 else 0)
            + (if \<exists>r \<in> set (collectReasons (finalLedger exampleArgLimit exampleHostname inputTrio) (members groupTrio)).
                    startsWith r ''Shared link:'' then 15 / 100 else 0)
            + (if \<exists>r \<in> set (collectReasons (finalLedger exampleArgLimit exampleHostname inputTrio) (members groupTrio)).
                    startsWith r ''Shared domain:'' then 10 / 100 else 0))"
proof -
  have m: "groupTrio \<in> set (groups outputTrio)" by (simp add: outputTrio_def)
  show ?thesis by (intro conjI trio_result m C1_score_formula[OF trio_result m])
qed

lemma compute_components:
  assumes "computeControllerGroups argLimit urlHostname inp = Some (Inr out)"
  shows "\<exists>st rt rtm. runPasses argLimit urlHostname inp = Some (Inr st) \<and> wf (up (uf st)) \<and>
     (\<forall>a. find_root (uf st) a = Some (rt a)) \<and>
     rtm = fold (\<lambda>a m. push_to_map m (rt a) a) (actors inp) [] \<and>
     rootToMembers (actors inp) (uf st) [] = Some rtm \<and>
     out = finish (buildGroups (evidenceByPair st) (minGroupSize inp) rtm)"
proof -
  from compute_structure[OF assms] obtain st rt where
    rp: "runPasses argLimit urlHostname inp = Some (Inr st)" and wf: "wf (up (uf st))"
    and rt: "\<forall>a. rootOf (uf st) a (rt a)"
    and rtm: "rootToMembers (actors inp) (uf st) [] = Some (fold (\<lambda>a m. push_to_map m (rt a) a) (actors inp) [])"
    and out: "out = finish (buildGroups (evidenceByPair st) (minGroupSize inp)
          (fold (\<lambda>a m. push_to_map m (rt a) a) (actors inp) []))"
    by blast
  have "\<forall>a. find_root (uf st) a = Some (rt a)" using rt find_root_rootOf[OF wf] by simp
  then show ?thesis using rp wf rtm out by blast
qed

text \<open>
  C5. A component whose member count is below \<open>max(2, minGroupSize)\<close> produces no group,
  and none of its actors is a key of \<open>controllerIdByActor\<close>. The member count of the
  component of an actor is the number of entries of the actor list with the same root; a
  singleton has the count 1, which is below the bound whatever \<open>minGroupSize\<close> is.
\<close>

theorem C5_small_components_absent:
  assumes "computeControllerGroups argLimit urlHostname inp = Some (Inr out)"
    and "a \<in> set (actors inp)"
    and "int (componentCount argLimit urlHostname inp a) < max 2 (minGroupSize inp)"
  shows "(\<forall>g \<in> set (groups out). a \<notin> set (members g)) \<and>
         a \<notin> fst ` set (controllerIdByActor out)"
proof -
  from compute_components[OF assms(1)] obtain st rt rtm where
    rp: "runPasses argLimit urlHostname inp = Some (Inr st)"
    and fr: "\<forall>a. find_root (uf st) a = Some (rt a)"
    and rtm: "rtm = fold (\<lambda>a m. push_to_map m (rt a) a) (actors inp) []"
    and out: "out = finish (buildGroups (evidenceByPair st) (minGroupSize inp) rtm)"
    by blast
  let ?B = "buildGroups (evidenceByPair st) (minGroupSize inp) rtm"
  have ff: "finalForest argLimit urlHostname inp = uf st" using rp by (simp add: finalForest_def)
  have cnt: "componentCount argLimit urlHostname inp a = length (filter (\<lambda>b. rt b = rt a) (actors inp))"
    by (simp only: componentCount_def ff fr option.inject)
  have no: "\<And>g. g \<in> set (groupsAcc ?B) \<Longrightarrow> a \<notin> set (members g)"
  proof
    fix g assume g: "g \<in> set (groupsAcc ?B)" and a: "a \<in> set (members g)"
    obtain root mems0 cid where
      e: "(root, mems0) \<in> set rtm" and big: "\<not> int (length mems0) < max 2 (minGroupSize inp)"
      and gm: "g = makeGroup (evidenceByPair st) cid mems0"
      by (rule groups_of_buildGroups[OF g])
    have e': "(root, mems0) \<in> set (fold (\<lambda>a m. push_to_map m (rt a) a) (actors inp) [])"
      using e unfolding rtm .
    have m0: "mems0 = filter (\<lambda>b. rt b = root) (actors inp)"
      using rtm_entries[OF e'] by (rule conjunct1)
    have "a \<in> set mems0" using a gm by simp
    then have "rt a = root" using m0 by simp
    then show False using big m0 cnt assms(3) by simp
  qed
  have g1: "\<forall>g \<in> set (groups out). a \<notin> set (members g)" using no out by (simp add: groups_finish)
  have "fst ` set (controllerIdByActor out) = (\<Union>g\<in>set (groupsAcc ?B). set (members g))"
    using out id_keys by (simp add: finish_def)
  then have g2: "a \<notin> fst ` set (controllerIdByActor out)" using no by blast
  show ?thesis using g1 g2 by blast
qed

theorem C5_witness:
  "computeControllerGroups exampleArgLimit exampleHostname inputTrio = Some (Inr outputTrio) \<and>
   ''z:bob'' \<in> set (actors inputTrio) \<and>
   int (componentCount exampleArgLimit exampleHostname inputTrio ''z:bob'') < max 2 (minGroupSize inputTrio) \<and>
   groupTrio \<in> set (groups outputTrio) \<and>
   ''z:bob'' \<notin> set (members groupTrio) \<and>
   ''z:bob'' \<notin> fst ` set (controllerIdByActor outputTrio)"
proof -
  have a: "''z:bob'' \<in> set (actors inputTrio)" by (simp add: inputTrio_def)
  have c: "int (componentCount exampleArgLimit exampleHostname inputTrio ''z:bob'') < max 2 (minGroupSize inputTrio)"
    by code_simp
  have m: "groupTrio \<in> set (groups outputTrio)" by (simp add: outputTrio_def)
  show ?thesis using trio_result a c m C5_small_components_absent[OF trio_result a c] by blast
qed

lemma groupsBeforeSort_eq:
  assumes "runPasses argLimit urlHostname inp = Some (Inr st)"
    and "rootToMembers (actors inp) (uf st) [] = Some rtm"
  shows "groupsBeforeSort argLimit urlHostname inp = groupsAcc (buildGroups (evidenceByPair st) (minGroupSize inp) rtm)"
  using assms by (simp add: groupsBeforeSort_def)

lemma sortKey_le:
  "sortKey g \<le> sortKey h \<longleftrightarrow>
     score h < score g \<or> (score h = score g \<and> length (members h) \<le> length (members g))"
  by (auto simp: sortKey_def)

text \<open>
  C6. The identifiers of the groups are 0, 1, 2, ... in the order in which the components
  are enumerated, that is, in the array before the sort. The returned list is that array
  stably sorted: by descending score, ties by descending member count; the groups keep
  their identifiers. \<open>controllerIdByActor\<close> maps each member of a returned group to the
  identifier of that group.
\<close>

theorem C6_identifiers_and_order:
  assumes "computeControllerGroups argLimit urlHostname inp = Some (Inr out)"
  shows "map controllerId (groupsBeforeSort argLimit urlHostname inp) = [0..<length (groupsBeforeSort argLimit urlHostname inp)] \<and>
         groups out = sort_key sortKey (groupsBeforeSort argLimit urlHostname inp) \<and>
         set (groups out) = set (groupsBeforeSort argLimit urlHostname inp) \<and>
         (\<forall>i j. i < j \<and> j < length (groups out) \<longrightarrow>
            score (groups out ! j) < score (groups out ! i) \<or>
            (score (groups out ! j) = score (groups out ! i) \<and>
             length (members (groups out ! j)) \<le> length (members (groups out ! i)))) \<and>
         (\<forall>g \<in> set (groups out). \<forall>m \<in> set (members g).
            map_of (controllerIdByActor out) m = Some (controllerId g))"
proof -
  from compute_components[OF assms(1)] obtain st rt rtm where
    rp: "runPasses argLimit urlHostname inp = Some (Inr st)"
    and rtm: "rtm = fold (\<lambda>a m. push_to_map m (rt a) a) (actors inp) []"
    and rtm_some: "rootToMembers (actors inp) (uf st) [] = Some rtm"
    and out: "out = finish (buildGroups (evidenceByPair st) (minGroupSize inp) rtm)"
    by blast
  let ?B = "buildGroups (evidenceByPair st) (minGroupSize inp) rtm"
  have pre: "groupsBeforeSort argLimit urlHostname inp = groupsAcc ?B" using rp rtm_some by (rule groupsBeforeSort_eq)
  have c1: "map controllerId (groupsBeforeSort argLimit urlHostname inp) = [0..<length (groupsBeforeSort argLimit urlHostname inp)]"
    unfolding pre by (rule ids_consecutive)
  have c2: "groups out = sort_key sortKey (groupsBeforeSort argLimit urlHostname inp)"
    using out pre by (simp add: finish_def)
  have c3: "set (groups out) = set (groupsBeforeSort argLimit urlHostname inp)" using c2 by simp
  have srt: "sorted (map sortKey (groups out))" unfolding c2 by (rule sorted_sort_key)
  have c4: "\<forall>i j. i < j \<and> j < length (groups out) \<longrightarrow>
            score (groups out ! j) < score (groups out ! i) \<or>
            (score (groups out ! j) = score (groups out ! i) \<and>
             length (members (groups out ! j)) \<le> length (members (groups out ! i)))"
  proof (intro allI impI)
    fix i j assume ij: "i < j \<and> j < length (groups out)"
    then have "map sortKey (groups out) ! i \<le> map sortKey (groups out) ! j"
      using srt by (simp add: sorted_iff_nth_mono)
    then have "sortKey (groups out ! i) \<le> sortKey (groups out ! j)" using ij by simp
    then show "score (groups out ! j) < score (groups out ! i) \<or>
            (score (groups out ! j) = score (groups out ! i) \<and>
             length (members (groups out ! j)) \<le> length (members (groups out ! i)))"
      by (simp add: sortKey_le)
  qed
  have d: "distinct (map fst rtm)" unfolding rtm by (rule distinct_fold_push) simp
  have own: "\<forall>(r, ms) \<in> set rtm. \<forall>a \<in> set ms. rt a = r"
  proof (clarify)
    fix r ms a assume e: "(r, ms) \<in> set rtm" and a: "a \<in> set ms"
    have e': "(r, ms) \<in> set (fold (\<lambda>a m. push_to_map m (rt a) a) (actors inp) [])"
      using e unfolding rtm .
    have "ms = filter (\<lambda>a. rt a = r) (actors inp)"
      using rtm_entries[OF e'] by (rule conjunct1)
    then show "rt a = r" using a by simp
  qed
  have "\<forall>g \<in> set (groupsAcc ?B). \<forall>m \<in> set (members g). map_of (idsAcc ?B) m = Some (controllerId g)"
    using ids_of_members[OF d own] by blast
  then have c5: "\<forall>g \<in> set (groups out). \<forall>m \<in> set (members g).
            map_of (controllerIdByActor out) m = Some (controllerId g)"
    using out by (simp add: finish_def)
  show ?thesis using c1 c2 c3 c4 c5 by blast
qed

theorem C6_witness:
  "computeControllerGroups exampleArgLimit exampleHostname inputTwoGroups = Some (Inr outputTwoGroups) \<and>
   map controllerId (groupsBeforeSort exampleArgLimit exampleHostname inputTwoGroups)
     = [0..<length (groupsBeforeSort exampleArgLimit exampleHostname inputTwoGroups)] \<and>
   groups outputTwoGroups = sort_key sortKey (groupsBeforeSort exampleArgLimit exampleHostname inputTwoGroups) \<and>
   map controllerId (groups outputTwoGroups) = [1, 0] \<and>
   (score (groups outputTwoGroups ! 1) < score (groups outputTwoGroups ! 0) \<or>
     (score (groups outputTwoGroups ! 1) = score (groups outputTwoGroups ! 0) \<and>
      length (members (groups outputTwoGroups ! 1)) \<le> length (members (groups outputTwoGroups ! 0)))) \<and>
   map_of (controllerIdByActor outputTwoGroups) ''a1'' = Some (controllerId (groups outputTwoGroups ! 0))"
proof -
  note c = C6_identifiers_and_order[OF two_groups_result]
  have ij: "(0::nat) < 1 \<and> 1 < length (groups outputTwoGroups)" by (simp add: outputTwoGroups_def)
  have ord: "score (groups outputTwoGroups ! 1) < score (groups outputTwoGroups ! 0) \<or>
     (score (groups outputTwoGroups ! 1) = score (groups outputTwoGroups ! 0) \<and>
      length (members (groups outputTwoGroups ! 1)) \<le> length (members (groups outputTwoGroups ! 0)))"
    using c ij by blast
  have g: "groups outputTwoGroups ! 0 \<in> set (groups outputTwoGroups)" by (simp add: outputTwoGroups_def)
  have m: "''a1'' \<in> set (members (groups outputTwoGroups ! 0))" by (simp add: outputTwoGroups_def)
  have idm: "map_of (controllerIdByActor outputTwoGroups) ''a1'' = Some (controllerId (groups outputTwoGroups ! 0))"
    using c g m by blast
  have ids: "map controllerId (groups outputTwoGroups) = [1, 0]" by (simp add: outputTwoGroups_def)
  show ?thesis using two_groups_result c ord idm ids by blast
qed

text \<open>
  C7, as the claim states it, fails: the evidence list is not sorted. On \<open>inputTrio\<close> the
  group of the two alice handles has the link reason before the handle reason, the order in
  which the passes recorded them, and \<open>Same handle ...\<close> sorts before \<open>Shared link ...\<close>.
\<close>

theorem C7_evidence_not_sorted:
  "computeControllerGroups exampleArgLimit exampleHostname inputTrio = Some (Inr outputTrio) \<and>
   groups outputTrio = [groupTrio] \<and>
   evidence groupTrio = [''Shared link: https://a.io/p'', ''Same handle across platforms: alice''] \<and>
   \<not> sorted (evidence groupTrio)"
  by code_simp

text \<open>
  C7, amended. For every returned group the member list is sorted (lexicographically, by
  code unit); the evidence list is not sorted but is the first 8 of the reasons that the
  pairwise scan over the sorted members accumulated, in the order of accumulation.
\<close>

theorem C7_members_sorted_evidence_in_scan_order:
  assumes "computeControllerGroups argLimit urlHostname inp = Some (Inr out)"
    and "g \<in> set (groups out)"
  shows "sorted (members g) \<and>
         evidence g = take 8 (collectReasons (finalLedger argLimit urlHostname inp) (members g))"
proof -
  from compute_components[OF assms(1)] obtain st rt rtm where
    rp: "runPasses argLimit urlHostname inp = Some (Inr st)"
    and out: "out = finish (buildGroups (evidenceByPair st) (minGroupSize inp) rtm)"
    by blast
  have led: "finalLedger argLimit urlHostname inp = evidenceByPair st" using rp by (simp add: finalLedger_def)
  have "g \<in> set (groupsAcc (buildGroups (evidenceByPair st) (minGroupSize inp) rtm))"
    using assms(2) out by (simp add: groups_finish)
  then obtain root mems0 cid where g: "g = makeGroup (evidenceByPair st) cid mems0"
    by (rule groups_of_buildGroups)
  show ?thesis unfolding led g by (simp add: evidence_makeGroup)
qed

theorem C7_witness:
  "computeControllerGroups exampleArgLimit exampleHostname inputTrio = Some (Inr outputTrio) \<and>
   groupTrio \<in> set (groups outputTrio) \<and>
   sorted (members groupTrio) \<and>
   evidence groupTrio = take 8 (collectReasons (finalLedger exampleArgLimit exampleHostname inputTrio) (members groupTrio))"
proof -
  have m: "groupTrio \<in> set (groups outputTrio)" by (simp add: outputTrio_def)
  show ?thesis
    using trio_result m C7_members_sorted_evidence_in_scan_order[OF trio_result m] by blast
qed

section \<open>Claims about the passes\<close>

lemma keepsComps_refl: "keepsComps u u"
  by (simp add: keepsComps_def)

lemma keepsComps_trans: "keepsComps u v \<Longrightarrow> keepsComps v w \<Longrightarrow> keepsComps u w"
  by (simp add: keepsComps_def)

lemma unitedIn_sameComp:
  assumes wf: "wf (up u)" and s: "\<forall>x \<in> set s. \<forall>y \<in> set s. sameComp u x y"
  shows "unitedIn u s"
proof (cases s)
  case Nil
  then show ?thesis by (simp add: unitedIn_def)
next
  case (Cons h t)
  have "\<forall>x \<in> set s. find_root u x = find_root u (hd s)"
  proof
    fix x assume x: "x \<in> set s"
    have "hd s \<in> set s" using Cons by simp
    then have "sameComp u x (hd s)" using s x by blast
    then obtain r where "rootOf u x r" "rootOf u (hd s) r" by (auto simp: sameComp_def)
    then have "find_root u x = Some r" "find_root u (hd s) = Some r"
      using find_root_rootOf[OF wf] by auto
    then show "find_root u x = find_root u (hd s)" by simp
  qed
  then show ?thesis by (simp add: unitedIn_def list_all_iff)
qed

text \<open>
  A pass over the sets of a map: it returns, the forest stays well-founded, what was
  connected stays connected, and every set of the map that meets the threshold is connected
  afterwards.
\<close>

lemma pass_unites:
  assumes shape: "\<And>k s st. visit (k, s) st = (if length s < n then Some st else connectMany s (pre @ k) st)"
    and n: "2 \<le> n"
    and wf: "wf (up (uf st))"
  shows "\<exists>st'. for_each visit m st = Some st' \<and> wf (up (uf st')) \<and> keepsComps (uf st) (uf st') \<and>
           (\<forall>k s. (k, s) \<in> set m \<and> n \<le> length s \<and> [] \<notin> set s \<longrightarrow>
              (\<forall>x \<in> set s. \<forall>y \<in> set s. sameComp (uf st') x y))"
  using wf
proof (induction m arbitrary: st)
  case Nil
  then show ?case by (simp add: keepsComps_refl)
next
  case (Cons e m)
  obtain k s where e: "e = (k, s)" by (cases e)
  have "\<exists>st1. visit (k, s) st = Some st1 \<and> wf (up (uf st1)) \<and> keepsComps (uf st) (uf st1) \<and>
          (n \<le> length s \<and> [] \<notin> set s \<longrightarrow> (\<forall>x \<in> set s. \<forall>y \<in> set s. sameComp (uf st1) x y))"
  proof (cases "length s < n")
    case True
    then show ?thesis using Cons.prems shape[of k s st] by (simp add: keepsComps_refl)
  next
    case False
    from connectMany_spec[OF Cons.prems, of s "pre @ k"] obtain st1 where
      cm: "connectMany s (pre @ k) st = Some st1" and wf1: "wf (up (uf st1))"
      and mono: "\<forall>y z. sameComp (uf st) y z \<longrightarrow> sameComp (uf st1) y z"
      and conn: "2 \<le> length s \<and> [] \<notin> set s \<longrightarrow> (\<forall>x \<in> set s. \<forall>y \<in> set s. sameComp (uf st1) x y)"
      by blast
    have "visit (k, s) st = Some st1" using False cm shape[of k s st] by simp
    moreover have "keepsComps (uf st) (uf st1)" using mono by (simp add: keepsComps_def)
    moreover have "n \<le> length s \<and> [] \<notin> set s \<longrightarrow> (\<forall>x \<in> set s. \<forall>y \<in> set s. sameComp (uf st1) x y)"
      using conn n by auto
    ultimately show ?thesis using wf1 by blast
  qed
  then obtain st1 where v: "visit (k, s) st = Some st1" and wf1: "wf (up (uf st1))"
    and k1: "keepsComps (uf st) (uf st1)"
    and c1: "n \<le> length s \<and> [] \<notin> set s \<longrightarrow> (\<forall>x \<in> set s. \<forall>y \<in> set s. sameComp (uf st1) x y)"
    by blast
  from Cons.IH[OF wf1] obtain st' where
    fe: "for_each visit m st1 = Some st'" and wf': "wf (up (uf st'))"
    and k': "keepsComps (uf st1) (uf st')"
    and c': "\<forall>k s. (k, s) \<in> set m \<and> n \<le> length s \<and> [] \<notin> set s \<longrightarrow>
              (\<forall>x \<in> set s. \<forall>y \<in> set s. sameComp (uf st') x y)"
    by blast
  have res: "for_each visit (e # m) st = Some st'" using v fe e by simp
  have kk: "keepsComps (uf st) (uf st')" using k1 k' by (rule keepsComps_trans)
  have cc: "\<forall>k' s'. (k', s') \<in> set (e # m) \<and> n \<le> length s' \<and> [] \<notin> set s' \<longrightarrow>
              (\<forall>x \<in> set s'. \<forall>y \<in> set s'. sameComp (uf st') x y)"
  proof (intro allI impI)
    fix k' s' assume h: "(k', s') \<in> set (e # m) \<and> n \<le> length s' \<and> [] \<notin> set s'"
    show "\<forall>x \<in> set s'. \<forall>y \<in> set s'. sameComp (uf st') x y"
    proof (cases "(k', s') = e")
      case True
      then have "\<forall>x \<in> set s'. \<forall>y \<in> set s'. sameComp (uf st1) x y" using c1 h e by auto
      then show ?thesis using k' by (simp add: keepsComps_def)
    next
      case False
      then have "(k', s') \<in> set m" using h by auto
      then show ?thesis using c' h by blast
    qed
  qed
  show ?case using res wf' kk cc by blast
qed

lemma linkVisit_eq:
  "linkVisit (k, s) st = (if length s < 2 then Some st else connectMany s (''Shared link: '' @ k) st)"
  by (simp add: linkVisit_def)

lemma domainVisit_eq:
  "domainVisit (k, s) st = (if length s < 3 then Some st else connectMany s (''Shared domain: '' @ k) st)"
  by (simp add: domainVisit_def)

lemma stemVisit_eq:
  "stemVisit (k, s) st = (if length s < 4 then Some st else connectMany s (''Shared handle stem: '' @ k) st)"
  by (simp add: stemVisit_def)

lemma baseHandleVisit_eq:
  "baseHandleVisit (k, s) st =
     (if length s < 2 then Some st else connectMany s (''Same handle across platforms: '' @ k) st)"
  by (simp add: baseHandleVisit_def)

lemma walletVisit_eq:
  "walletVisit (k, s) st = (if length s < 2 then Some st else connectMany s (''Shared wallet: '' @ k) st)"
  by (simp add: walletVisit_def)

lemma funderVisit_eq:
  "funderVisit (k, s) st = (if length s < 2 then Some st else connectMany s (''Common funder: '' @ k) st)"
  by (simp add: funderVisit_def)

text \<open>The six passes in a row, each with what it leaves connected.\<close>

lemma passes_chain:
  assumes wm: "walletToActors argLimit inp = Inr wm"
  shows "\<exists>(st1::resolver) (st2::resolver) (st3::resolver) (st4::resolver) (st5::resolver) st6.
     passesBeforeFunders argLimit urlHostname inp = Some (Inr st5) \<and>
     for_each funderVisit (funderToWallets inp) st5 = Some st6 \<and>
     runPasses argLimit urlHostname inp = Some (Inr st6) \<and> wf (up (uf st5)) \<and> wf (up (uf st6)) \<and>
     keepsComps (uf st1) (uf st6) \<and> keepsComps (uf st2) (uf st6) \<and> keepsComps (uf st3) (uf st6) \<and>
     keepsComps (uf st4) (uf st6) \<and> keepsComps (uf st5) (uf st6) \<and>
     (\<forall>k s. (k, s) \<in> set (linkToActors inp) \<and> 2 \<le> length s \<and> [] \<notin> set s \<longrightarrow>
        (\<forall>x \<in> set s. \<forall>y \<in> set s. sameComp (uf st1) x y)) \<and>
     (\<forall>k s. (k, s) \<in> set (domainToActors urlHostname inp) \<and> 3 \<le> length s \<and> [] \<notin> set s \<longrightarrow>
        (\<forall>x \<in> set s. \<forall>y \<in> set s. sameComp (uf st2) x y)) \<and>
     (\<forall>k s. (k, s) \<in> set (stemToActors inp) \<and> 4 \<le> length s \<and> [] \<notin> set s \<longrightarrow>
        (\<forall>x \<in> set s. \<forall>y \<in> set s. sameComp (uf st3) x y)) \<and>
     (\<forall>k s. (k, s) \<in> set (baseHandleToActors inp) \<and> 2 \<le> length s \<and> [] \<notin> set s \<longrightarrow>
        (\<forall>x \<in> set s. \<forall>y \<in> set s. sameComp (uf st4) x y)) \<and>
     (\<forall>k s. (k, s) \<in> set wm \<and> 2 \<le> length s \<and> [] \<notin> set s \<longrightarrow>
        (\<forall>x \<in> set s. \<forall>y \<in> set s. sameComp (uf st5) x y)) \<and>
     (\<forall>k s. (k, s) \<in> set (funderToWallets inp) \<and> 2 \<le> length s \<and> [] \<notin> set s \<longrightarrow>
        (\<forall>x \<in> set s. \<forall>y \<in> set s. sameComp (uf st6) x y))"
proof -
  have wf0: "wf (up (uf (initialState inp)))"
    using initialState_inv[of inp] by (simp add: inv_st_def uf_inv_def)
  from pass_unites[of linkVisit 2 "''Shared link: ''", OF linkVisit_eq _ wf0, of "linkToActors inp"]
  obtain st1 where s1: "for_each linkVisit (linkToActors inp) (initialState inp) = Some st1"
    and wf1: "wf (up (uf st1))"
    and c1: "\<forall>k s. (k, s) \<in> set (linkToActors inp) \<and> 2 \<le> length s \<and> [] \<notin> set s \<longrightarrow>
        (\<forall>x \<in> set s. \<forall>y \<in> set s. sameComp (uf st1) x y)"
    by auto
  from pass_unites[of domainVisit 3 "''Shared domain: ''", OF domainVisit_eq _ wf1, of "domainToActors urlHostname inp"]
  obtain st2 where s2: "for_each domainVisit (domainToActors urlHostname inp) st1 = Some st2"
    and wf2: "wf (up (uf st2))" and k2: "keepsComps (uf st1) (uf st2)"
    and c2: "\<forall>k s. (k, s) \<in> set (domainToActors urlHostname inp) \<and> 3 \<le> length s \<and> [] \<notin> set s \<longrightarrow>
        (\<forall>x \<in> set s. \<forall>y \<in> set s. sameComp (uf st2) x y)"
    by auto
  from pass_unites[of stemVisit 4 "''Shared handle stem: ''", OF stemVisit_eq _ wf2, of "stemToActors inp"]
  obtain st3 where s3: "for_each stemVisit (stemToActors inp) st2 = Some st3"
    and wf3: "wf (up (uf st3))" and k3: "keepsComps (uf st2) (uf st3)"
    and c3: "\<forall>k s. (k, s) \<in> set (stemToActors inp) \<and> 4 \<le> length s \<and> [] \<notin> set s \<longrightarrow>
        (\<forall>x \<in> set s. \<forall>y \<in> set s. sameComp (uf st3) x y)"
    by auto
  from pass_unites[of baseHandleVisit 2 "''Same handle across platforms: ''", OF baseHandleVisit_eq _ wf3,
      of "baseHandleToActors inp"]
  obtain st4 where s4: "for_each baseHandleVisit (baseHandleToActors inp) st3 = Some st4"
    and wf4: "wf (up (uf st4))" and k4: "keepsComps (uf st3) (uf st4)"
    and c4: "\<forall>k s. (k, s) \<in> set (baseHandleToActors inp) \<and> 2 \<le> length s \<and> [] \<notin> set s \<longrightarrow>
        (\<forall>x \<in> set s. \<forall>y \<in> set s. sameComp (uf st4) x y)"
    by auto
  from pass_unites[of walletVisit 2 "''Shared wallet: ''", OF walletVisit_eq _ wf4, of wm]
  obtain st5 where s5: "for_each walletVisit wm st4 = Some st5"
    and wf5: "wf (up (uf st5))" and k5: "keepsComps (uf st4) (uf st5)"
    and c5: "\<forall>k s. (k, s) \<in> set wm \<and> 2 \<le> length s \<and> [] \<notin> set s \<longrightarrow>
        (\<forall>x \<in> set s. \<forall>y \<in> set s. sameComp (uf st5) x y)"
    by auto
  from pass_unites[of funderVisit 2 "''Common funder: ''", OF funderVisit_eq _ wf5, of "funderToWallets inp"]
  obtain st6 where s6: "for_each funderVisit (funderToWallets inp) st5 = Some st6"
    and wf6: "wf (up (uf st6))" and k6: "keepsComps (uf st5) (uf st6)"
    and c6: "\<forall>k s. (k, s) \<in> set (funderToWallets inp) \<and> 2 \<le> length s \<and> [] \<notin> set s \<longrightarrow>
        (\<forall>x \<in> set s. \<forall>y \<in> set s. sameComp (uf st6) x y)"
    by auto
  have p5: "passesBeforeFunders argLimit urlHostname inp = Some (Inr st5)"
    using s1 s2 s3 s4 s5 wm by (simp add: passesBeforeFunders_def passesBeforeWallets_def)
  have rp: "runPasses argLimit urlHostname inp = Some (Inr st6)"
    using p5 s6 by (simp add: runPasses_def)
  have k56: "keepsComps (uf st5) (uf st6)" by (rule k6)
  have k46: "keepsComps (uf st4) (uf st6)" using k5 k56 by (rule keepsComps_trans)
  have k36: "keepsComps (uf st3) (uf st6)" using k4 k46 by (rule keepsComps_trans)
  have k26: "keepsComps (uf st2) (uf st6)" using k3 k36 by (rule keepsComps_trans)
  have k16: "keepsComps (uf st1) (uf st6)" using k2 k26 by (rule keepsComps_trans)
  show ?thesis
    apply (rule exI[of _ st1], rule exI[of _ st2], rule exI[of _ st3])
    apply (rule exI[of _ st4], rule exI[of _ st5], rule exI[of _ st6])
    apply (intro conjI)
    apply (rule p5 s6 rp wf5 wf6 k16 k26 k36 k46 k56 c1 c2 c3 c4 c5 c6)+
    done
qed

lemma united_finally:
  assumes rp: "runPasses argLimit urlHostname inp = Some (Inr st6)" and wf: "wf (up (uf st6))"
    and keep: "keepsComps u (uf st6)"
    and conn: "\<forall>x \<in> set s. \<forall>y \<in> set s. sameComp u x y"
  shows "unitedIn (finalForest argLimit urlHostname inp) s"
proof -
  have ff: "finalForest argLimit urlHostname inp = uf st6" using rp by (simp add: finalForest_def)
  have "\<forall>x \<in> set s. \<forall>y \<in> set s. sameComp (uf st6) x y" using keep conn by (simp add: keepsComps_def)
  then show ?thesis unfolding ff using wf by (rule unitedIn_sameComp[rotated])
qed

text \<open>
  The thresholds for sets of non-empty strings, on every run that returns: below the
  threshold the visit of a set returns the state as it is (the six equations); a set that a
  pass has built and that meets the threshold of the pass is united in the final forest.
\<close>

lemma thresholds_unite_nonempty_sets:
  assumes wm: "walletToActors argLimit inp = Inr wm" and ne: "[] \<notin> set s"
  shows "((k, s) \<in> set (linkToActors inp) \<and> 2 \<le> length s \<longrightarrow> unitedIn (finalForest argLimit urlHostname inp) s) \<and>
         ((k, s) \<in> set (domainToActors urlHostname inp) \<and> 3 \<le> length s
            \<longrightarrow> unitedIn (finalForest argLimit urlHostname inp) s) \<and>
         ((k, s) \<in> set (stemToActors inp) \<and> 4 \<le> length s \<longrightarrow> unitedIn (finalForest argLimit urlHostname inp) s) \<and>
         ((k, s) \<in> set (baseHandleToActors inp) \<and> 2 \<le> length s
            \<longrightarrow> unitedIn (finalForest argLimit urlHostname inp) s) \<and>
         ((k, s) \<in> set wm \<and> 2 \<le> length s \<longrightarrow> unitedIn (finalForest argLimit urlHostname inp) s) \<and>
         ((k, s) \<in> set (funderToWallets inp) \<and> 2 \<le> length s \<longrightarrow> unitedIn (finalForest argLimit urlHostname inp) s)"
proof -
  from passes_chain[OF wm, of urlHostname]
  obtain st1 :: resolver and st2 :: resolver and st3 :: resolver and st4 :: resolver
    and st5 :: resolver and st6 :: resolver where
    rp: "runPasses argLimit urlHostname inp = Some (Inr st6)" and wf: "wf (up (uf st6))"
    and k1: "keepsComps (uf st1) (uf st6)" and k2: "keepsComps (uf st2) (uf st6)"
    and k3: "keepsComps (uf st3) (uf st6)" and k4: "keepsComps (uf st4) (uf st6)"
    and k5: "keepsComps (uf st5) (uf st6)"
    and c1: "\<forall>k s. (k, s) \<in> set (linkToActors inp) \<and> 2 \<le> length s \<and> [] \<notin> set s \<longrightarrow>
        (\<forall>x \<in> set s. \<forall>y \<in> set s. sameComp (uf st1) x y)"
    and c2: "\<forall>k s. (k, s) \<in> set (domainToActors urlHostname inp) \<and> 3 \<le> length s \<and> [] \<notin> set s \<longrightarrow>
        (\<forall>x \<in> set s. \<forall>y \<in> set s. sameComp (uf st2) x y)"
    and c3: "\<forall>k s. (k, s) \<in> set (stemToActors inp) \<and> 4 \<le> length s \<and> [] \<notin> set s \<longrightarrow>
        (\<forall>x \<in> set s. \<forall>y \<in> set s. sameComp (uf st3) x y)"
    and c4: "\<forall>k s. (k, s) \<in> set (baseHandleToActors inp) \<and> 2 \<le> length s \<and> [] \<notin> set s \<longrightarrow>
        (\<forall>x \<in> set s. \<forall>y \<in> set s. sameComp (uf st4) x y)"
    and c5: "\<forall>k s. (k, s) \<in> set wm \<and> 2 \<le> length s \<and> [] \<notin> set s \<longrightarrow>
        (\<forall>x \<in> set s. \<forall>y \<in> set s. sameComp (uf st5) x y)"
    and c6: "\<forall>k s. (k, s) \<in> set (funderToWallets inp) \<and> 2 \<le> length s \<and> [] \<notin> set s \<longrightarrow>
        (\<forall>x \<in> set s. \<forall>y \<in> set s. sameComp (uf st6) x y)"
    by (elim exE conjE) (rule that; assumption)
  have u1: "(k, s) \<in> set (linkToActors inp) \<and> 2 \<le> length s \<longrightarrow> unitedIn (finalForest argLimit urlHostname inp) s"
    using united_finally[OF rp wf k1] c1 ne by blast
  have u2: "(k, s) \<in> set (domainToActors urlHostname inp) \<and> 3 \<le> length s
            \<longrightarrow> unitedIn (finalForest argLimit urlHostname inp) s"
    using united_finally[OF rp wf k2] c2 ne by blast
  have u3: "(k, s) \<in> set (stemToActors inp) \<and> 4 \<le> length s \<longrightarrow> unitedIn (finalForest argLimit urlHostname inp) s"
    using united_finally[OF rp wf k3] c3 ne by blast
  have u4: "(k, s) \<in> set (baseHandleToActors inp) \<and> 2 \<le> length s
            \<longrightarrow> unitedIn (finalForest argLimit urlHostname inp) s"
    using united_finally[OF rp wf k4] c4 ne by blast
  have u5: "(k, s) \<in> set wm \<and> 2 \<le> length s \<longrightarrow> unitedIn (finalForest argLimit urlHostname inp) s"
    using united_finally[OF rp wf k5] c5 ne by blast
  have u6: "(k, s) \<in> set (funderToWallets inp) \<and> 2 \<le> length s \<longrightarrow> unitedIn (finalForest argLimit urlHostname inp) s"
    using united_finally[OF rp wf keepsComps_refl] c6 ne by blast
  show ?thesis by (intro conjI) (rule u1 u2 u3 u4 u5 u6)+
qed

text \<open>
  C2. The claim: each pass unites a matching set iff the size of the set meets the
  threshold of the pass. On \<open>inputEmptyActor\<close> the link \<open>lnk\<close> is shared by two actors,
  the empty string and \<open>b\<close>: the set has size 2, which meets the threshold of the link
  pass, and \<open>connectMany\<close> is called on it; but the union puts \<open>b\<close> under the empty string,
  which \<open>find\<close> takes for no parent at all. The two are not united and
  no group is returned. With a named actor in place of the empty string the same input
  gives the group. (For sets of non-empty strings the thresholds are as claimed:
  \<open>thresholds_unite_nonempty_sets\<close>, \<open>threshold_examples\<close>.)
\<close>

theorem C2_set_with_empty_string_not_united:
  "linkToActors inputEmptyActor = [(''lnk'', [[], ''b''])] \<and>
   linkVisit (''lnk'', [[], ''b'']) (initialState inputEmptyActor)
     = connectMany [[], ''b''] ''Shared link: lnk'' (initialState inputEmptyActor) \<and>
   find_root (finalForest exampleArgLimit exampleHostname inputEmptyActor) [] = Some [] \<and>
   find_root (finalForest exampleArgLimit exampleHostname inputEmptyActor) ''b'' = Some ''b'' \<and>
   computeControllerGroups exampleArgLimit exampleHostname inputEmptyActor
     = Some (Inr \<lparr>groups = [], controllerIdByActor = []\<rparr>) \<and>
   computeControllerGroups exampleArgLimit exampleHostname inputNamedActor = Some (Inr outputNamedActor)"
proof -
  have a: "linkToActors inputEmptyActor = [(''lnk'', [[], ''b''])]" by code_simp
  have b: "linkVisit (''lnk'', [[], ''b'']) (initialState inputEmptyActor)
     = connectMany [[], ''b''] ''Shared link: lnk'' (initialState inputEmptyActor)"
    by (simp add: linkVisit_def)
  have c: "find_root (finalForest exampleArgLimit exampleHostname inputEmptyActor) [] = Some []" by code_simp
  have d: "find_root (finalForest exampleArgLimit exampleHostname inputEmptyActor) ''b'' = Some ''b''"
    by code_simp
  have e: "computeControllerGroups exampleArgLimit exampleHostname inputEmptyActor
     = Some (Inr \<lparr>groups = [], controllerIdByActor = []\<rparr>)" by code_simp
  have f: "computeControllerGroups exampleArgLimit exampleHostname inputNamedActor = Some (Inr outputNamedActor)"
    by code_simp
  show ?thesis by (intro conjI a b c d e f)
qed

subsection \<open>Frame properties of find and union\<close>

lemma sep_rtrancl:
  assumes "sep N u" and "(y, x) \<in> (up u)\<^sup>*"
  shows "y \<in> N \<longleftrightarrow> x \<in> N"
  using assms(2)
proof (induction rule: rtrancl_induct)
  case base
  then show ?case by simp
next
  case (step x z)
  then show ?case using assms(1) by (simp add: sep_def)
qed

lemma sep_compl: "sep (- N) u = sep N u"
  by (auto simp: sep_def)

lemma find_frame:
  assumes wf: "wf (up u)" and sp: "sep N u" and x: "x \<notin> N"
    and f: "find_uf u x = Some (r, u')"
  shows "r \<notin> N \<and> wf (up u') \<and> sep N u' \<and> (\<forall>y \<in> N. parent u' y = parent u y)"
proof -
  from find_uf_spec[OF wf, of x] f have
    rx: "rootOf u x r" and wf': "wf (up u')" and pc: "pathChanged u u' x"
    by auto
  have rN: "r \<notin> N" using sep_rtrancl[OF sp rootOf_rtrancl[OF rx]] x by simp
  have ch: "\<And>y. parent u' y = parent u y \<or>
          (\<exists>r. parent u' y = Some r \<and> rootOf u y r \<and> y \<noteq> r \<and> (y, x) \<in> (up u)\<^sup>*)"
    using pc by (simp add: pathChanged_def)
  have same: "\<forall>y \<in> N. parent u' y = parent u y"
  proof
    fix y assume y: "y \<in> N"
    have "(y, x) \<notin> (up u)\<^sup>*" using sep_rtrancl[OF sp, of y x] y x by blast
    then show "parent u' y = parent u y" using ch[of y] by blast
  qed
  have sp': "sep N u'"
    unfolding sep_def
  proof (intro allI impI)
    fix p y assume e: "(p, y) \<in> up u'"
    from ch[of y] show "(p \<in> N) = (y \<in> N)"
    proof
      assume "parent u' y = parent u y"
      then have "(p, y) \<in> up u" using e by (simp add: up_def)
      then show ?thesis using sp by (simp add: sep_def)
    next
      assume "\<exists>r. parent u' y = Some r \<and> rootOf u y r \<and> y \<noteq> r \<and> (y, x) \<in> (up u)\<^sup>*"
      then obtain r' where r': "parent u' y = Some r'" "rootOf u y r'" by blast
      then have "p = r'" using e by (simp add: up_def)
      then show ?thesis using sep_rtrancl[OF sp rootOf_rtrancl[OF r'(2)]] by simp
    qed
  qed
  show ?thesis using rN wf' sp' same by blast
qed

lemma union_frame:
  assumes wf: "wf (up u)" and sp: "sep N u" and a: "a \<notin> N" and b: "b \<notin> N"
  shows "\<exists>u'. union_uf u a b = Some u' \<and> wf (up u') \<and> sep N u' \<and> (\<forall>y \<in> N. parent u' y = parent u y)"
proof -
  from union_uf_spec[OF wf, of a b] obtain u' where
    un: "union_uf u a b = Some u'" and wf': "wf (up u')" by blast
  from find_uf_spec[OF wf, of a] obtain ra u1 where fa: "find_uf u a = Some (ra, u1)" by blast
  from find_frame[OF wf sp a fa] have
    ra: "ra \<notin> N" and wf1: "wf (up u1)" and sp1: "sep N u1" and same1: "\<forall>y \<in> N. parent u1 y = parent u y"
    by blast+
  from find_uf_spec[OF wf1, of b] obtain rb u2 where fb: "find_uf u1 b = Some (rb, u2)" by blast
  from find_frame[OF wf1 sp1 b fb] have
    rb: "rb \<notin> N" and sp2: "sep N u2" and same2: "\<forall>y \<in> N. parent u2 y = parent u1 y"
    by blast+
  have "u' = u2 \<or> (\<exists>c t. c \<notin> N \<and> t \<notin> N \<and> parent u' = (parent u2)(c \<mapsto> t))"
  proof (cases "ra = rb")
    case True
    then show ?thesis using un fa fb by (simp add: union_uf_def)
  next
    case False
    show ?thesis
    proof (cases "size_or_1 u2 ra < size_or_1 u2 rb")
      case True
      then have "parent u' = (parent u2)(ra \<mapsto> rb)"
        using un fa fb False by (auto simp: union_uf_def Let_def)
      then show ?thesis using ra rb by blast
    next
      case lt: False
      then have "parent u' = (parent u2)(rb \<mapsto> ra)"
        using un fa fb False by (auto simp: union_uf_def Let_def)
      then show ?thesis using ra rb by blast
    qed
  qed
  then have "sep N u' \<and> (\<forall>y \<in> N. parent u' y = parent u2 y)"
  proof
    assume "u' = u2"
    then show ?thesis using sp2 by simp
  next
    assume "\<exists>c t. c \<notin> N \<and> t \<notin> N \<and> parent u' = (parent u2)(c \<mapsto> t)"
    then obtain c t where c: "c \<notin> N" and t: "t \<notin> N" and pu: "parent u' = (parent u2)(c \<mapsto> t)" by blast
    have "sep N u'"
      unfolding sep_def
    proof (intro allI impI)
      fix p y assume e: "(p, y) \<in> up u'"
      show "(p \<in> N) = (y \<in> N)"
      proof (cases "y = c")
        case True
        then have "p = t" using e pu by (simp add: up_def)
        then show ?thesis using True c t by simp
      next
        case False
        then have "(p, y) \<in> up u2" using e pu by (simp add: up_def)
        then show ?thesis using sp2 by (simp add: sep_def)
      qed
    qed
    moreover have "\<forall>y \<in> N. parent u' y = parent u2 y" using pu c by auto
    ultimately show ?thesis by blast
  qed
  then show ?thesis using un wf' same1 same2 by auto
qed

lemma connectLoop_frame:
  assumes "frame N u0 st" and "first \<notin> N" and "set ms \<inter> N = {}"
  shows "\<exists>st'. connectLoop first ms reason st = Some st' \<and> frame N u0 st'"
  using assms
proof (induction ms arbitrary: st)
  case Nil
  then show ?case by simp
next
  case (Cons m ms)
  have wf: "wf (up (uf st))" and sp: "sep N (uf st)" and same: "\<forall>y \<in> N. parent (uf st) y = parent u0 y"
    using Cons.prems(1) by (simp_all add: frame_def)
  have m: "m \<notin> N" using Cons.prems(3) by auto
  from union_frame[OF wf sp Cons.prems(2) m] obtain u1 where
    un: "union_uf (uf st) first m = Some u1" and wf1: "wf (up u1)" and sp1: "sep N u1"
    and same1: "\<forall>y \<in> N. parent u1 y = parent (uf st) y"
    by blast
  let ?st1 = "addEvidence first m reason (st\<lparr>uf := u1\<rparr>)"
  have fr1: "frame N u0 ?st1" using wf1 sp1 same1 same by (simp add: frame_def)
  have ms: "set ms \<inter> N = {}" using Cons.prems(3) by auto
  from Cons.IH[OF fr1 Cons.prems(2) ms] obtain st' where
    "connectLoop first ms reason ?st1 = Some st'" "frame N u0 st'" by blast
  then show ?case using un by simp
qed

lemma connectMany_frame:
  assumes "frame N u0 st" and "set mems \<inter> N = {}"
  shows "\<exists>st'. connectMany mems reason st = Some st' \<and> frame N u0 st'"
proof (cases "length mems < 2")
  case True
  then show ?thesis using assms(1) by (simp add: connectMany_def)
next
  case False
  then obtain first rest where mems: "mems = first # rest" by (cases mems) auto
  have "first \<notin> N" "set rest \<inter> N = {}" using assms(2) mems by auto
  from connectLoop_frame[OF assms(1) this] show ?thesis using False mems by (simp add: connectMany_def)
qed

lemma for_each_inv_on:
  assumes step: "\<And>x st. x \<in> set xs \<Longrightarrow> I st \<Longrightarrow> \<exists>st'. f x st = Some st' \<and> I st'"
    and init: "I st"
  shows "\<exists>st'. for_each f xs st = Some st' \<and> I st'"
  using assms
proof (induction xs arbitrary: st)
  case Nil
  then show ?case by simp
next
  case (Cons x xs)
  from Cons.prems(1)[of x st] Cons.prems(2) obtain st1 where s1: "f x st = Some st1" and i1: "I st1" by auto
  have "\<exists>st'. for_each f xs st1 = Some st' \<and> I st'"
    by (rule Cons.IH) (use Cons.prems(1) i1 in auto)
  then show ?case using s1 by simp
qed

lemma pass_frame:
  assumes visit: "\<And>k s st. visit (k, s) st = Some st \<or> visit (k, s) st = connectMany s (pre @ k) st"
    and fr: "frame N u0 st" and disj: "vals m \<inter> N = {}"
  shows "\<exists>st'. for_each visit m st = Some st' \<and> frame N u0 st'"
proof (rule for_each_inv_on[where I = "frame N u0"])
  fix e st assume e: "e \<in> set m" and f: "frame N u0 st"
  obtain k s where ks: "e = (k, s)" by (cases e)
  have "set s \<subseteq> vals m" using e ks by (force simp: vals_def)
  then have "set s \<inter> N = {}" using disj by blast
  from connectMany_frame[OF f this, of "pre @ k"] visit[of k s st] f
  show "\<exists>st'. visit e st = Some st' \<and> frame N u0 st'" using ks by auto
qed (rule fr)

subsection \<open>What the sets of the passes contain\<close>

lemma vals_map_set: "vals (map_set m k v) \<subseteq> vals m \<union> set v"
  by (induction m k v rule: map_set.induct) (auto simp: vals_def)

lemma map_of_vals: "map_of m k = Some s \<Longrightarrow> set s \<subseteq> vals m"
  by (force simp: vals_def dest: map_of_SomeD)

lemma vals_add: "vals (add_to_set_map m k a) \<subseteq> insert a (vals m)"
proof (cases "map_of m k")
  case None
  then show ?thesis using vals_map_set[of m k "[a]"] by (simp add: add_to_set_map_def map_get_def)
next
  case (Some s)
  have "set (set_add s a) \<subseteq> insert a (vals m)" using map_of_vals[OF Some] by (auto simp: set_add_def)
  then show ?thesis using vals_map_set[of m k "set_add s a"] Some
    by (auto simp: add_to_set_map_def map_get_def)
qed

lemma vals_fold_gen:
  assumes "\<And>x m. vals (f x m) \<subseteq> insert (g x) (vals m)"
  shows "vals (fold f xs m) \<subseteq> vals m \<union> g ` set xs"
proof (induction xs arbitrary: m)
  case Nil
  then show ?case by auto
next
  case (Cons x xs)
  have "vals (fold f xs (f x m)) \<subseteq> vals (f x m) \<union> g ` set xs" by (rule Cons.IH)
  then show ?case using assms[of x m] by auto
qed

lemma vals_fold_keys: "vals (fold (\<lambda>k m. add_to_set_map m k a) ks m) \<subseteq> insert a (vals m)"
proof (induction ks arbitrary: m)
  case Nil
  then show ?case by auto
next
  case (Cons k ks)
  have "vals (fold (\<lambda>k m. add_to_set_map m k a) ks (add_to_set_map m k a))
          \<subseteq> insert a (vals (add_to_set_map m k a))" by (rule Cons.IH)
  then show ?case using vals_add[of m k a] by auto
qed

lemma vals_empty [simp]: "vals [] = {}"
  by (simp add: vals_def)

lemma vals_linkToActors: "vals (linkToActors inp) \<subseteq> set (actors inp)"
  unfolding linkToActors_def
  using vals_fold_gen[where g = "\<lambda>a. a" and m = "[]" and xs = "actors inp"
      and f = "\<lambda>a m. fold (\<lambda>l m. add_to_set_map m l a) (linksOf inp a) m", OF vals_fold_keys]
  by simp

lemma vals_domainToActors: "vals (domainToActors urlHostname inp) \<subseteq> set (actors inp)"
  unfolding domainToActors_def
  using vals_fold_gen[where g = "\<lambda>a. a" and m = "[]" and xs = "actors inp"
      and f = "\<lambda>a m. fold (\<lambda>d m. add_to_set_map m d a)
          (new_set (filter (\<lambda>d. d \<notin> set COMMON_DOMAINS) (extractDomains urlHostname (linksOf inp a)))) m",
      OF vals_fold_keys]
  by simp

lemma vals_walletLoop:
  "walletLoop argLimit inp as m = Inr m' \<Longrightarrow> vals m' \<subseteq> vals m \<union> set as"
proof (induction as arbitrary: m)
  case Nil
  then show ?case by auto
next
  case (Cons a as)
  from Cons.prems obtain uniq where u: "walletsOf argLimit inp a = Inr uniq"
    and l: "walletLoop argLimit inp as (fold (\<lambda>w m. add_to_set_map m w a) uniq m) = Inr m'"
    by (auto split: sum.splits)
  have "vals m' \<subseteq> vals (fold (\<lambda>w m. add_to_set_map m w a) uniq m) \<union> set as"
    using Cons.IH[OF l] .
  then show ?case using vals_fold_keys[of a uniq m] by auto
qed

lemma vals_walletToActors: "walletToActors argLimit inp = Inr wm \<Longrightarrow> vals wm \<subseteq> set (actors inp)"
  using vals_walletLoop[of argLimit inp "actors inp" "[]" wm] by (simp add: walletToActors_def)

lemma vals_baseHandleToActors: "vals (baseHandleToActors inp) \<subseteq> set (actors inp)"
proof -
  let ?f = "\<lambda>actor m.
        let parts = splitOn (CHR '':'') actor in
        if length parts < 2 then m
        else
          let base = toLowerCase (trim (joinWith '':'' (drop 1 parts))) in
          if length base < 3 then m else add_to_set_map m base actor"
  have "\<And>x m. vals (?f x m) \<subseteq> insert x (vals m)"
    by (auto simp: Let_def dest!: subsetD[OF vals_add])
  from vals_fold_gen[where f = ?f and g = "\<lambda>a. a", OF this, of "actors inp" "[]"]
  show ?thesis unfolding baseHandleToActors_def by simp
qed

lemma vals_stemToActors: "vals (stemToActors inp) \<subseteq> fst ` set (handleStemByActor inp)"
proof -
  let ?f = "\<lambda>(actor, stem) m. if stem = [] then m else add_to_set_map m stem actor"
  have "\<And>x m. vals (?f x m) \<subseteq> insert (fst x) (vals m)"
    by (auto split: prod.splits dest!: subsetD[OF vals_add])
  from vals_fold_gen[where f = ?f and g = fst, OF this, of "handleStemByActor inp" "[]"]
  show ?thesis unfolding stemToActors_def by simp
qed

lemma vals_fold_funders:
  "vals (fold (\<lambda>f m. if \<not> looksLikeEvmAddress f then m else add_to_set_map m f wallet) funders m)
     \<subseteq> insert wallet (vals m)"
proof (induction funders arbitrary: m)
  case Nil
  then show ?case by auto
next
  case (Cons f funders)
  let ?m1 = "if \<not> looksLikeEvmAddress f then m else add_to_set_map m f wallet"
  have "vals ?m1 \<subseteq> insert wallet (vals m)" by (auto dest!: subsetD[OF vals_add])
  moreover have "vals (fold (\<lambda>f m. if \<not> looksLikeEvmAddress f then m else add_to_set_map m f wallet) funders ?m1)
     \<subseteq> insert wallet (vals ?m1)" by (rule Cons.IH)
  ultimately show ?case by auto
qed

lemma vals_funderToWallets: "vals (funderToWallets inp) \<subseteq> fst ` set (sharedFundersByWallet inp)"
proof -
  let ?f = "\<lambda>(wallet, funders) m.
        fold (\<lambda>f m. if \<not> looksLikeEvmAddress f then m else add_to_set_map m f wallet) funders m"
  have "\<And>x m. vals (?f x m) \<subseteq> insert (fst x) (vals m)"
    by (auto split: prod.splits dest!: subsetD[OF vals_fold_funders])
  from vals_fold_gen[where f = ?f and g = fst, OF this, of "sharedFundersByWallet inp" "[]"]
  show ?thesis unfolding funderToWallets_def by simp
qed

subsection \<open>The frame of the passes\<close>

lemma rootOf_frame:
  assumes sp: "sep N u" and same: "\<forall>y \<in> N. parent u' y = parent u y"
    and r: "rootOf u y s"
  shows "y \<in> N \<longrightarrow> rootOf u' y s"
  using r
proof (induction rule: rootOf.induct)
  case (rootOf_base x)
  show ?case
  proof
    assume "x \<in> N"
    then have "isRoot u' x" using rootOf_base same by (simp add: isRoot_def)
    then show "rootOf u' x x" by (rule rootOf.rootOf_base)
  qed
next
  case (rootOf_step p x r)
  show ?case
  proof
    assume x: "x \<in> N"
    then have p: "p \<in> N" using sp rootOf_step.hyps(1) by (simp add: sep_def)
    have "(p, x) \<in> up u'" using rootOf_step.hyps(1) same x by (simp add: up_def)
    then show "rootOf u' x r" using rootOf_step.IH p by (auto intro: rootOf.rootOf_step)
  qed
qed

lemma linkVisit_shape:
  "linkVisit (k, s) st = Some st \<or> linkVisit (k, s) st = connectMany s (''Shared link: '' @ k) st"
  by (simp add: linkVisit_def)

lemma domainVisit_shape:
  "domainVisit (k, s) st = Some st \<or> domainVisit (k, s) st = connectMany s (''Shared domain: '' @ k) st"
  by (simp add: domainVisit_def)

lemma stemVisit_shape:
  "stemVisit (k, s) st = Some st \<or> stemVisit (k, s) st = connectMany s (''Shared handle stem: '' @ k) st"
  by (simp add: stemVisit_def)

lemma baseHandleVisit_shape:
  "baseHandleVisit (k, s) st = Some st \<or> baseHandleVisit (k, s) st = connectMany s (''Same handle across platforms: '' @ k) st"
  by (simp add: baseHandleVisit_def)

lemma walletVisit_shape:
  "walletVisit (k, s) st = Some st \<or> walletVisit (k, s) st = connectMany s (''Shared wallet: '' @ k) st"
  by (simp add: walletVisit_def)

lemma funderVisit_shape:
  "funderVisit (k, s) st = Some st \<or> funderVisit (k, s) st = connectMany s (''Common funder: '' @ k) st"
  by (simp add: funderVisit_def)

lemma frame_before_funders:
  assumes wm: "walletToActors argLimit inp = Inr wm"
  shows "\<exists>st. passesBeforeFunders argLimit urlHostname inp = Some (Inr st) \<and>
     frame (- (set (actors inp) \<union> fst ` set (handleStemByActor inp))) (makeUnionFind (actors inp)) st"
proof -
  let ?N = "- (set (actors inp) \<union> fst ` set (handleStemByActor inp))"
  let ?u0 = "makeUnionFind (actors inp)"
  have f0: "frame ?N ?u0 (initialState inp)"
    by (simp add: frame_def initialState_def makeUnionFind_up sep_def)
  have v1: "vals (linkToActors inp) \<inter> ?N = {}" using vals_linkToActors[of inp] by auto
  have v2: "vals (domainToActors urlHostname inp) \<inter> ?N = {}" using vals_domainToActors[of urlHostname inp] by auto
  have v3: "vals (stemToActors inp) \<inter> ?N = {}" using vals_stemToActors[of inp] by auto
  have v4: "vals (baseHandleToActors inp) \<inter> ?N = {}" using vals_baseHandleToActors[of inp] by auto
  have v5: "vals wm \<inter> ?N = {}" using vals_walletToActors[OF wm] by auto
  obtain st1 where s1: "for_each linkVisit (linkToActors inp) (initialState inp) = Some st1" and f1: "frame ?N ?u0 st1"
    using pass_frame[where visit = linkVisit and pre = "''Shared link: ''", OF linkVisit_shape f0 v1]
    by blast
  obtain st2 where s2: "for_each domainVisit (domainToActors urlHostname inp) st1 = Some st2" and f2: "frame ?N ?u0 st2"
    using pass_frame[where visit = domainVisit and pre = "''Shared domain: ''", OF domainVisit_shape f1 v2]
    by blast
  obtain st3 where s3: "for_each stemVisit (stemToActors inp) st2 = Some st3" and f3: "frame ?N ?u0 st3"
    using pass_frame[where visit = stemVisit and pre = "''Shared handle stem: ''", OF stemVisit_shape f2 v3]
    by blast
  obtain st4 where s4: "for_each baseHandleVisit (baseHandleToActors inp) st3 = Some st4" and f4: "frame ?N ?u0 st4"
    using pass_frame[where visit = baseHandleVisit and pre = "''Same handle across platforms: ''",
        OF baseHandleVisit_shape f3 v4]
    by blast
  obtain st5 where s5: "for_each walletVisit wm st4 = Some st5" and f5: "frame ?N ?u0 st5"
    using pass_frame[where visit = walletVisit and pre = "''Shared wallet: ''", OF walletVisit_shape f4 v5]
    by blast
  show ?thesis using s1 s2 s3 s4 s5 f5 wm by (simp add: passesBeforeFunders_def passesBeforeWallets_def)
qed

lemma find_root_unregistered: "parent u x = None \<Longrightarrow> find_root u x = Some x"
  by (simp add: find_root_def find_uf.simps)

lemma find_root_eq_sameComp:
  assumes wf: "wf (up u)"
  shows "(find_root u x = find_root u y) = sameComp u x y"
proof -
  obtain rx where rx: "rootOf u x rx" using rootOf_total[OF wf] by blast
  obtain ry where ry: "rootOf u y ry" using rootOf_total[OF wf] by blast
  have fx: "find_root u x = Some rx" using rx find_root_rootOf[OF wf] by simp
  have fy: "find_root u y = Some ry" using ry find_root_rootOf[OF wf] by simp
  have "sameComp u x y \<longleftrightarrow> rx = ry"
    unfolding sameComp_def using rx ry rootOf_det by blast
  then show ?thesis using fx fy by simp
qed

subsection \<open>A pass joins components only through the strings it unites\<close>

lemma onlyThrough_refl: "onlyThrough u W u"
  by (simp add: onlyThrough_def)

lemma onlyThrough_end:
  assumes "onlyThrough u0 W u" and "sameComp u y a" and "a \<in> W"
  shows "\<exists>w \<in> W. sameComp u0 y w"
  using assms unfolding onlyThrough_def by blast

lemma onlyThrough_union:
  assumes wf: "wf (up u)" and th: "onlyThrough u0 W u" and a: "a \<in> W" and b: "b \<in> W"
    and un: "union_uf u a b = Some u'"
  shows "onlyThrough u0 W u'"
  unfolding onlyThrough_def
proof (intro allI impI)
  fix y z assume yz: "sameComp u' y z"
  from union_uf_spec[OF wf, of a b] un have
    "sameComp u y z \<or> (sameComp u y a \<and> sameComp u z b) \<or> (sameComp u y b \<and> sameComp u z a)"
    using yz by auto
  then show "sameComp u0 y z \<or> (\<exists>w1 \<in> W. \<exists>w2 \<in> W. sameComp u0 y w1 \<and> sameComp u0 z w2)"
  proof (elim disjE conjE)
    assume "sameComp u y z"
    then show ?thesis using th by (simp add: onlyThrough_def)
  next
    assume "sameComp u y a" "sameComp u z b"
    then show ?thesis using onlyThrough_end[OF th _ a] onlyThrough_end[OF th _ b] by blast
  next
    assume "sameComp u y b" "sameComp u z a"
    then show ?thesis using onlyThrough_end[OF th _ b] onlyThrough_end[OF th _ a] by blast
  qed
qed

lemma onlyThrough_connectLoop:
  assumes "wf (up (uf st))" and "onlyThrough u0 W (uf st)" and "first \<in> W" and "set ms \<subseteq> W"
    and "connectLoop first ms reason st = Some st'"
  shows "onlyThrough u0 W (uf st')"
  using assms
proof (induction ms arbitrary: st)
  case Nil
  then show ?case by simp
next
  case (Cons m ms)
  from union_uf_spec[OF Cons.prems(1), of first m] obtain u1 where
    un: "union_uf (uf st) first m = Some u1" and wf1: "wf (up u1)" by blast
  have th1: "onlyThrough u0 W u1"
    using onlyThrough_union[OF Cons.prems(1,2,3) _ un] Cons.prems(4) by simp
  let ?st1 = "addEvidence first m reason (st\<lparr>uf := u1\<rparr>)"
  have cl: "connectLoop first ms reason ?st1 = Some st'" using Cons.prems(5) un by simp
  have "onlyThrough u0 W (uf st')"
    by (rule Cons.IH[of ?st1]) (use wf1 th1 Cons.prems(3,4) cl in auto)
  then show ?case .
qed

lemma onlyThrough_pass:
  assumes shape: "\<And>k s st. visit (k, s) st = (if length s < n then Some st else connectMany s (pre @ k) st)"
    and n: "2 \<le> n"
    and wf: "wf (up (uf st))" and th: "onlyThrough u0 W (uf st)"
    and sub: "vals (filter (\<lambda>e. n \<le> length (snd e)) m) \<subseteq> W"
    and fe: "for_each visit m st = Some st'"
  shows "onlyThrough u0 W (uf st')"
  using wf th sub fe
proof (induction m arbitrary: st)
  case Nil
  then show ?case by simp
next
  case (Cons e m)
  obtain k s where e: "e = (k, s)" by (cases e)
  have subm: "vals (filter (\<lambda>e. n \<le> length (snd e)) m) \<subseteq> W"
    using Cons.prems(3) by (auto simp: vals_def split: if_splits)
  show ?case
  proof (cases "length s < n")
    case True
    then have "for_each visit m st = Some st'" using Cons.prems(4) e shape[of k s st] by simp
    then show ?thesis using Cons.IH[OF Cons.prems(1,2) subm] by simp
  next
    case False
    then have sW: "set s \<subseteq> W" using Cons.prems(3) e by (auto simp: vals_def)
    from connectMany_spec[OF Cons.prems(1), of s "pre @ k"] obtain st1 where
      cm: "connectMany s (pre @ k) st = Some st1" and wf1: "wf (up (uf st1))" by blast
    have len: "\<not> length s < 2" using False n by simp
    then obtain first rest where s: "s = first # rest" by (cases s) auto
    have cl: "connectLoop first rest (pre @ k) st = Some st1"
      using cm len s by (simp add: connectMany_def)
    have th1: "onlyThrough u0 W (uf st1)"
      using onlyThrough_connectLoop[OF Cons.prems(1,2) _ _ cl] sW s by simp
    have "for_each visit m st1 = Some st'" using Cons.prems(4) e shape[of k s st] False cm by simp
    then show ?thesis using Cons.IH[OF wf1 th1 subm] by simp
  qed
qed


text \<open>
  C4, as the claim states it, fails in both halves.

  First half, on \<open>inputFunded\<close>: the wallet \<open>walletLower\<close> is in the wallet sets of \<open>a1\<close>
  and \<open>a2\<close>, the wallet \<open>walletB\<close> in those of \<open>b1\<close> and \<open>b2\<close>, and the funder pass unites
  the two wallet strings. After the wallet pass \<open>walletLower\<close> is a root of its own, not
  connected to \<open>a1\<close>; after the funder pass the two wallet strings have one root, and \<open>a1\<close>
  and \<open>b1\<close> still have different roots: two groups are returned.

  Second half, on \<open>inputThroughC\<close>: the wallet \<open>walletC\<close> is in the wallet set of no actor
  (each of the two actors has its own identifier as only wallet), and the funder unions
  that involve \<open>walletC\<close> put the two actors in one group; without the shared funders
  there is no group.
\<close>

theorem C4_wallet_string_is_no_node:
  "walletsOf exampleArgLimit inputFunded ''a1'' = Inr [walletLower] \<and>
   walletsOf exampleArgLimit inputFunded ''a2'' = Inr [walletLower] \<and>
   walletsOf exampleArgLimit inputFunded ''b1'' = Inr [walletB] \<and>
   walletsOf exampleArgLimit inputFunded ''b2'' = Inr [walletB] \<and>
   funderToWallets inputFunded = [(funderF, [walletLower, walletB])] \<and>
   parent (forestBeforeFunders exampleArgLimit exampleHostname inputFunded) walletLower = None \<and>
   find_root (forestBeforeFunders exampleArgLimit exampleHostname inputFunded) walletLower
     \<noteq> find_root (forestBeforeFunders exampleArgLimit exampleHostname inputFunded) ''a1'' \<and>
   find_root (finalForest exampleArgLimit exampleHostname inputFunded) walletLower
     = find_root (finalForest exampleArgLimit exampleHostname inputFunded) walletB \<and>
   find_root (finalForest exampleArgLimit exampleHostname inputFunded) ''a1''
     \<noteq> find_root (finalForest exampleArgLimit exampleHostname inputFunded) ''b1'' \<and>
   computeControllerGroups exampleArgLimit exampleHostname inputFunded = Some (Inr outputFunded) \<and>
   walletsOf exampleArgLimit inputThroughC walletLower = Inr [walletLower] \<and>
   walletsOf exampleArgLimit inputThroughC walletB = Inr [walletB] \<and>
   funderToWallets inputThroughC = [(funderF, [walletLower, walletC]), (funderG, [walletC, walletB])] \<and>
   computeControllerGroups exampleArgLimit exampleHostname inputThroughC = Some (Inr outputThroughC) \<and>
   computeControllerGroups exampleArgLimit exampleHostname (inputThroughC\<lparr>sharedFundersByWallet := []\<rparr>)
     = Some (Inr \<lparr>groups = [], controllerIdByActor = []\<rparr>)"
  by code_simp

text \<open>
  C4, amended, on every run that returns (\<open>walletToActors\<close> returns its map \<open>wm\<close>). The
  node strings are the actor identifiers and the keys of \<open>handleStemByActor\<close>; the funded
  keys are the members of the sets of size 2 or more that the funder pass has built, all
  of them keys of \<open>sharedFundersByWallet\<close>.

  \<^item> The wallet pass unites the actors of every wallet set of 2 or more non-empty
    identifiers with each other. The wallet string itself is not made a node: a string
    \<open>v\<close> that is no node string is a root of its own before the funder pass, and no actor
    has it as root.
  \<^item> The funder pass unites the keys of every funder set of 2 or more non-empty keys with
    each other, whether or not a key is in an actor's wallet set. It separates nothing.
  \<^item> What the funder pass joins, it joins through the funded keys: two strings that are
    connected after it were connected before it, or each was connected before it to a
    funded key. Two actors that it joins were each connected before it to a funded key
    that is a node string.
  \<^item> So if no funded key is a node string, the funder pass changes no actor's grouping.
\<close>

theorem C4_wallet_pass_unites_actors_funder_pass_unites_keys:
  assumes wm: "walletToActors argLimit inp = Inr wm"
  shows
    "((k, s) \<in> set wm \<and> 2 \<le> length s \<and> [] \<notin> set s
        \<longrightarrow> unitedIn (forestBeforeFunders argLimit urlHostname inp) s) \<and>
     (v \<notin> set (actors inp) \<union> fst ` set (handleStemByActor inp)
        \<longrightarrow> find_root (forestBeforeFunders argLimit urlHostname inp) v = Some v) \<and>
     (v \<notin> set (actors inp) \<union> fst ` set (handleStemByActor inp) \<and> a \<in> set (actors inp)
        \<longrightarrow> find_root (forestBeforeFunders argLimit urlHostname inp) a \<noteq> Some v) \<and>
     ((f, ws) \<in> set (funderToWallets inp) \<and> 2 \<le> length ws \<and> [] \<notin> set ws
        \<longrightarrow> unitedIn (finalForest argLimit urlHostname inp) ws) \<and>
     (find_root (forestBeforeFunders argLimit urlHostname inp) x
        = find_root (forestBeforeFunders argLimit urlHostname inp) y
        \<longrightarrow> find_root (finalForest argLimit urlHostname inp) x
              = find_root (finalForest argLimit urlHostname inp) y) \<and>
     (find_root (finalForest argLimit urlHostname inp) x = find_root (finalForest argLimit urlHostname inp) y
        \<longrightarrow> find_root (forestBeforeFunders argLimit urlHostname inp) x
              = find_root (forestBeforeFunders argLimit urlHostname inp) y \<or>
            (\<exists>w1 \<in> fundedKeys inp. \<exists>w2 \<in> fundedKeys inp.
               find_root (forestBeforeFunders argLimit urlHostname inp) x
                 = find_root (forestBeforeFunders argLimit urlHostname inp) w1 \<and>
               find_root (forestBeforeFunders argLimit urlHostname inp) y
                 = find_root (forestBeforeFunders argLimit urlHostname inp) w2)) \<and>
     (a \<in> set (actors inp) \<and> b \<in> set (actors inp) \<and>
      find_root (finalForest argLimit urlHostname inp) a = find_root (finalForest argLimit urlHostname inp) b \<and>
      find_root (forestBeforeFunders argLimit urlHostname inp) a
        \<noteq> find_root (forestBeforeFunders argLimit urlHostname inp) b
        \<longrightarrow> (\<exists>w1 \<in> fundedKeys inp \<inter> (set (actors inp) \<union> fst ` set (handleStemByActor inp)).
             \<exists>w2 \<in> fundedKeys inp \<inter> (set (actors inp) \<union> fst ` set (handleStemByActor inp)).
               find_root (forestBeforeFunders argLimit urlHostname inp) a
                 = find_root (forestBeforeFunders argLimit urlHostname inp) w1 \<and>
               find_root (forestBeforeFunders argLimit urlHostname inp) b
                 = find_root (forestBeforeFunders argLimit urlHostname inp) w2)) \<and>
     (fundedKeys inp \<inter> (set (actors inp) \<union> fst ` set (handleStemByActor inp)) = {} \<and>
      a \<in> set (actors inp) \<and> b \<in> set (actors inp)
        \<longrightarrow> (find_root (finalForest argLimit urlHostname inp) a
               = find_root (finalForest argLimit urlHostname inp) b) =
            (find_root (forestBeforeFunders argLimit urlHostname inp) a
               = find_root (forestBeforeFunders argLimit urlHostname inp) b))"
proof -
  let ?N = "set (actors inp) \<union> fst ` set (handleStemByActor inp)"
  let ?W = "fundedKeys inp"
  from passes_chain[OF wm, of urlHostname]
  obtain st5 :: resolver and st6 :: resolver where
    pbf: "passesBeforeFunders argLimit urlHostname inp = Some (Inr st5)"
    and fe: "for_each funderVisit (funderToWallets inp) st5 = Some st6"
    and rp: "runPasses argLimit urlHostname inp = Some (Inr st6)"
    and wf5: "wf (up (uf st5))" and wf6: "wf (up (uf st6))"
    and k5: "keepsComps (uf st5) (uf st6)"
    and c5: "\<forall>k s. (k, s) \<in> set wm \<and> 2 \<le> length s \<and> [] \<notin> set s \<longrightarrow>
        (\<forall>x \<in> set s. \<forall>y \<in> set s. sameComp (uf st5) x y)"
    and c6: "\<forall>k s. (k, s) \<in> set (funderToWallets inp) \<and> 2 \<le> length s \<and> [] \<notin> set s \<longrightarrow>
        (\<forall>x \<in> set s. \<forall>y \<in> set s. sameComp (uf st6) x y)"
    by (elim exE conjE) (rule that; assumption)
  from frame_before_funders[OF wm, of urlHostname] pbf
  have f5: "frame (- ?N) (makeUnionFind (actors inp)) st5" by auto
  have fb: "forestBeforeFunders argLimit urlHostname inp = uf st5"
    using pbf by (simp add: forestBeforeFunders_def)
  have ff: "finalForest argLimit urlHostname inp = uf st6" using rp by (simp add: finalForest_def)
  have sep5: "sep ?N (uf st5)" using f5 sep_compl[of ?N "uf st5"] by (simp add: frame_def)
  have ot: "onlyThrough (uf st5) ?W (uf st6)"
    by (rule onlyThrough_pass[where visit = funderVisit and n = 2 and pre = "''Common funder: ''"
          and m = "funderToWallets inp", OF funderVisit_eq _ wf5 onlyThrough_refl _ fe])
       (simp_all add: fundedKeys_def)
  have eq5: "(find_root (uf st5) p = find_root (uf st5) q) = sameComp (uf st5) p q" for p q
    by (rule find_root_eq_sameComp[OF wf5])
  have eq6: "(find_root (uf st6) p = find_root (uf st6) q) = sameComp (uf st6) p q" for p q
    by (rule find_root_eq_sameComp[OF wf6])
  have A: "(k, s) \<in> set wm \<and> 2 \<le> length s \<and> [] \<notin> set s \<longrightarrow> unitedIn (uf st5) s"
  proof
    assume h: "(k, s) \<in> set wm \<and> 2 \<le> length s \<and> [] \<notin> set s"
    then have "\<forall>x \<in> set s. \<forall>y \<in> set s. sameComp (uf st5) x y" using c5 by blast
    then show "unitedIn (uf st5) s" by (rule unitedIn_sameComp[OF wf5])
  qed
  have B1: "find_root (uf st5) v' = Some v'" if v: "v' \<notin> ?N" for v'
  proof -
    have "parent (uf st5) v' = parent (makeUnionFind (actors inp)) v'"
      using f5 v by (simp add: frame_def)
    then have "parent (uf st5) v' = None" using v by (simp add: makeUnionFind_parent)
    then show ?thesis by (rule find_root_unregistered)
  qed
  have B2: "find_root (uf st5) a' \<noteq> Some v'" if v: "v' \<notin> ?N" and a: "a' \<in> set (actors inp)" for v' a'
  proof -
    obtain r where r: "rootOf (uf st5) a' r" using rootOf_total[OF wf5] by blast
    have "r \<in> ?N" using sep_rtrancl[OF sep5 rootOf_rtrancl[OF r]] a by simp
    moreover have "find_root (uf st5) a' = Some r" using r find_root_rootOf[OF wf5] by simp
    ultimately show ?thesis using v by auto
  qed
  have C1: "(f, ws) \<in> set (funderToWallets inp) \<and> 2 \<le> length ws \<and> [] \<notin> set ws \<longrightarrow> unitedIn (uf st6) ws"
  proof
    assume h: "(f, ws) \<in> set (funderToWallets inp) \<and> 2 \<le> length ws \<and> [] \<notin> set ws"
    then have "\<forall>x \<in> set ws. \<forall>y \<in> set ws. sameComp (uf st6) x y" using c6 by blast
    then show "unitedIn (uf st6) ws" by (rule unitedIn_sameComp[OF wf6])
  qed
  have C2: "find_root (uf st6) p = find_root (uf st6) q"
    if "find_root (uf st5) p = find_root (uf st5) q" for p q
    using that k5 unfolding eq5 eq6 keepsComps_def by blast
  have D: "find_root (uf st5) p = find_root (uf st5) q \<or>
           (\<exists>w1 \<in> ?W. \<exists>w2 \<in> ?W. find_root (uf st5) p = find_root (uf st5) w1 \<and>
              find_root (uf st5) q = find_root (uf st5) w2)"
    if "find_root (uf st6) p = find_root (uf st6) q" for p q
    using that ot unfolding eq5 eq6 onlyThrough_def by blast
  have D': "\<exists>w1 \<in> ?W \<inter> ?N. \<exists>w2 \<in> ?W \<inter> ?N. find_root (uf st5) a' = find_root (uf st5) w1 \<and>
              find_root (uf st5) b' = find_root (uf st5) w2"
    if a: "a' \<in> set (actors inp)" and b: "b' \<in> set (actors inp)"
      and j: "find_root (uf st6) a' = find_root (uf st6) b'"
      and n: "find_root (uf st5) a' \<noteq> find_root (uf st5) b'" for a' b'
  proof -
    from D[OF j] n obtain w1 w2 where w1: "w1 \<in> ?W" and w2: "w2 \<in> ?W"
      and e1: "find_root (uf st5) a' = find_root (uf st5) w1"
      and e2: "find_root (uf st5) b' = find_root (uf st5) w2" by blast
    have "w1 \<in> ?N"
    proof (rule ccontr)
      assume "w1 \<notin> ?N"
      then show False using B1[of w1] B2[of w1 a'] a e1 by simp
    qed
    moreover have "w2 \<in> ?N"
    proof (rule ccontr)
      assume "w2 \<notin> ?N"
      then show False using B1[of w2] B2[of w2 b'] b e2 by simp
    qed
    ultimately show ?thesis using w1 w2 e1 e2 by blast
  qed
  have E: "(find_root (uf st6) a = find_root (uf st6) b) = (find_root (uf st5) a = find_root (uf st5) b)"
    if "?W \<inter> ?N = {}" and "a \<in> set (actors inp)" and "b \<in> set (actors inp)"
    using that C2[of a b] D'[of a b] by blast
  show ?thesis unfolding fb ff
  proof (intro conjI)
    show "(k, s) \<in> set wm \<and> 2 \<le> length s \<and> [] \<notin> set s \<longrightarrow> unitedIn (uf st5) s" by (rule A)
    show "v \<notin> ?N \<longrightarrow> find_root (uf st5) v = Some v" using B1 by blast
    show "v \<notin> ?N \<and> a \<in> set (actors inp) \<longrightarrow> find_root (uf st5) a \<noteq> Some v" using B2 by blast
    show "(f, ws) \<in> set (funderToWallets inp) \<and> 2 \<le> length ws \<and> [] \<notin> set ws \<longrightarrow> unitedIn (uf st6) ws"
      by (rule C1)
    show "find_root (uf st5) x = find_root (uf st5) y \<longrightarrow> find_root (uf st6) x = find_root (uf st6) y"
      using C2 by blast
    show "find_root (uf st6) x = find_root (uf st6) y \<longrightarrow>
          find_root (uf st5) x = find_root (uf st5) y \<or>
          (\<exists>w1 \<in> ?W. \<exists>w2 \<in> ?W. find_root (uf st5) x = find_root (uf st5) w1 \<and>
              find_root (uf st5) y = find_root (uf st5) w2)"
      using D by blast
    show "a \<in> set (actors inp) \<and> b \<in> set (actors inp) \<and>
          find_root (uf st6) a = find_root (uf st6) b \<and> find_root (uf st5) a \<noteq> find_root (uf st5) b \<longrightarrow>
          (\<exists>w1 \<in> ?W \<inter> ?N. \<exists>w2 \<in> ?W \<inter> ?N. find_root (uf st5) a = find_root (uf st5) w1 \<and>
              find_root (uf st5) b = find_root (uf st5) w2)"
      using D'[of a b] by blast
    show "?W \<inter> ?N = {} \<and> a \<in> set (actors inp) \<and> b \<in> set (actors inp) \<longrightarrow>
          (find_root (uf st6) a = find_root (uf st6) b) = (find_root (uf st5) a = find_root (uf st5) b)"
      using E by blast
  qed
qed


theorem C4_witness:
  "walletToActors exampleArgLimit inputFunded
     = Inr [(walletLower, [''a1'', ''a2'']), (walletB, [''b1'', ''b2''])] \<and>
   unitedIn (forestBeforeFunders exampleArgLimit exampleHostname inputFunded) [''a1'', ''a2''] \<and>
   walletLower \<notin> set (actors inputFunded) \<union> fst ` set (handleStemByActor inputFunded) \<and>
   ''a1'' \<in> set (actors inputFunded) \<and> ''b1'' \<in> set (actors inputFunded) \<and>
   find_root (forestBeforeFunders exampleArgLimit exampleHostname inputFunded) walletLower = Some walletLower \<and>
   find_root (forestBeforeFunders exampleArgLimit exampleHostname inputFunded) ''a1'' \<noteq> Some walletLower \<and>
   (funderF, [walletLower, walletB]) \<in> set (funderToWallets inputFunded) \<and>
   unitedIn (finalForest exampleArgLimit exampleHostname inputFunded) [walletLower, walletB] \<and>
   find_root (forestBeforeFunders exampleArgLimit exampleHostname inputFunded) ''a1'' = find_root (forestBeforeFunders exampleArgLimit exampleHostname inputFunded) ''a2'' \<and>
   find_root (finalForest exampleArgLimit exampleHostname inputFunded) ''a1'' = find_root (finalForest exampleArgLimit exampleHostname inputFunded) ''a2'' \<and>
   find_root (finalForest exampleArgLimit exampleHostname inputFunded) walletLower = find_root (finalForest exampleArgLimit exampleHostname inputFunded) walletB \<and>
   (find_root (forestBeforeFunders exampleArgLimit exampleHostname inputFunded) walletLower = find_root (forestBeforeFunders exampleArgLimit exampleHostname inputFunded) walletB \<or>
    (\<exists>w1 \<in> fundedKeys inputFunded. \<exists>w2 \<in> fundedKeys inputFunded.
       find_root (forestBeforeFunders exampleArgLimit exampleHostname inputFunded) walletLower = find_root (forestBeforeFunders exampleArgLimit exampleHostname inputFunded) w1 \<and>
       find_root (forestBeforeFunders exampleArgLimit exampleHostname inputFunded) walletB = find_root (forestBeforeFunders exampleArgLimit exampleHostname inputFunded) w2)) \<and>
   fundedKeys inputFunded \<inter> (set (actors inputFunded) \<union> fst ` set (handleStemByActor inputFunded)) = {} \<and>
   (find_root (finalForest exampleArgLimit exampleHostname inputFunded) ''a1'' = find_root (finalForest exampleArgLimit exampleHostname inputFunded) ''b1'')
     = (find_root (forestBeforeFunders exampleArgLimit exampleHostname inputFunded) ''a1'' = find_root (forestBeforeFunders exampleArgLimit exampleHostname inputFunded) ''b1'') \<and>
   walletToActors exampleArgLimit inputThroughC = Inr [(walletLower, [walletLower]), (walletB, [walletB])] \<and>
   walletLower \<in> set (actors inputThroughC) \<and> walletB \<in> set (actors inputThroughC) \<and>
   find_root (finalForest exampleArgLimit exampleHostname inputThroughC) walletLower = find_root (finalForest exampleArgLimit exampleHostname inputThroughC) walletB \<and>
   find_root (forestBeforeFunders exampleArgLimit exampleHostname inputThroughC) walletLower \<noteq> find_root (forestBeforeFunders exampleArgLimit exampleHostname inputThroughC) walletB \<and>
   (\<exists>w1 \<in> fundedKeys inputThroughC \<inter> (set (actors inputThroughC) \<union> fst ` set (handleStemByActor inputThroughC)).
    \<exists>w2 \<in> fundedKeys inputThroughC \<inter> (set (actors inputThroughC) \<union> fst ` set (handleStemByActor inputThroughC)).
       find_root (forestBeforeFunders exampleArgLimit exampleHostname inputThroughC) walletLower = find_root (forestBeforeFunders exampleArgLimit exampleHostname inputThroughC) w1 \<and>
       find_root (forestBeforeFunders exampleArgLimit exampleHostname inputThroughC) walletB = find_root (forestBeforeFunders exampleArgLimit exampleHostname inputThroughC) w2)"
proof -
  have wmF: "walletToActors exampleArgLimit inputFunded
     = Inr [(walletLower, [''a1'', ''a2'']), (walletB, [''b1'', ''b2''])]" by code_simp
  have wmC: "walletToActors exampleArgLimit inputThroughC
     = Inr [(walletLower, [walletLower]), (walletB, [walletB])]" by code_simp
  note F1 = C4_wallet_pass_unites_actors_funder_pass_unites_keys[OF wmF, of walletLower "[''a1'', ''a2'']"
      exampleHostname walletLower "''a1''" funderF "[walletLower, walletB]" "''a1''" "''a2''" "''b1''"]
  note F2 = C4_wallet_pass_unites_actors_funder_pass_unites_keys[OF wmF, of walletLower "[''a1'', ''a2'']"
      exampleHostname walletLower "''a1''" funderF "[walletLower, walletB]" walletLower walletB "''b1''"]
  note C = C4_wallet_pass_unites_actors_funder_pass_unites_keys[OF wmC, of walletLower "[walletLower]"
      exampleHostname walletC walletLower funderF "[walletLower, walletC]" walletLower walletB walletB]
  have h1: "(walletLower, [''a1'', ''a2'']) \<in> set [(walletLower, [''a1'', ''a2'']), (walletB, [''b1'', ''b2''])]
      \<and> 2 \<le> length [''a1'', ''a2''] \<and> [] \<notin> set [''a1'', ''a2'']" by simp
  have h2: "walletLower \<notin> set (actors inputFunded) \<union> fst ` set (handleStemByActor inputFunded)"
    by code_simp
  have h3: "''a1'' \<in> set (actors inputFunded)" by code_simp
  have h3b: "''b1'' \<in> set (actors inputFunded)" by code_simp
  have h4: "(funderF, [walletLower, walletB]) \<in> set (funderToWallets inputFunded)" by code_simp
  have h4b: "2 \<le> length [walletLower, walletB] \<and> [] \<notin> set [walletLower, walletB]" by code_simp
  have h5: "find_root (forestBeforeFunders exampleArgLimit exampleHostname inputFunded) ''a1'' = find_root (forestBeforeFunders exampleArgLimit exampleHostname inputFunded) ''a2''" by code_simp
  have h6: "find_root (finalForest exampleArgLimit exampleHostname inputFunded) walletLower = find_root (finalForest exampleArgLimit exampleHostname inputFunded) walletB" by code_simp
  have h7: "fundedKeys inputFunded \<inter> (set (actors inputFunded) \<union> fst ` set (handleStemByActor inputFunded)) = {}"
    by code_simp
  have g1: "walletLower \<in> set (actors inputThroughC)" by code_simp
  have g2: "walletB \<in> set (actors inputThroughC)" by code_simp
  have g3: "find_root (finalForest exampleArgLimit exampleHostname inputThroughC) walletLower = find_root (finalForest exampleArgLimit exampleHostname inputThroughC) walletB" by code_simp
  have g4: "find_root (forestBeforeFunders exampleArgLimit exampleHostname inputThroughC) walletLower \<noteq> find_root (forestBeforeFunders exampleArgLimit exampleHostname inputThroughC) walletB" by code_simp
  have c1: "unitedIn (forestBeforeFunders exampleArgLimit exampleHostname inputFunded) [''a1'', ''a2'']" using F1 h1 by blast
  have c2: "find_root (forestBeforeFunders exampleArgLimit exampleHostname inputFunded) walletLower = Some walletLower" using F1 h2 by blast
  have c3: "find_root (forestBeforeFunders exampleArgLimit exampleHostname inputFunded) ''a1'' \<noteq> Some walletLower" using F1 h2 h3 by blast
  have c4: "unitedIn (finalForest exampleArgLimit exampleHostname inputFunded) [walletLower, walletB]" using F1 h4 h4b by blast
  have c5: "find_root (finalForest exampleArgLimit exampleHostname inputFunded) ''a1'' = find_root (finalForest exampleArgLimit exampleHostname inputFunded) ''a2''" using F1 h5 by blast
  have c6: "find_root (forestBeforeFunders exampleArgLimit exampleHostname inputFunded) walletLower = find_root (forestBeforeFunders exampleArgLimit exampleHostname inputFunded) walletB \<or>
    (\<exists>w1 \<in> fundedKeys inputFunded. \<exists>w2 \<in> fundedKeys inputFunded.
       find_root (forestBeforeFunders exampleArgLimit exampleHostname inputFunded) walletLower = find_root (forestBeforeFunders exampleArgLimit exampleHostname inputFunded) w1 \<and>
       find_root (forestBeforeFunders exampleArgLimit exampleHostname inputFunded) walletB = find_root (forestBeforeFunders exampleArgLimit exampleHostname inputFunded) w2)" using F2 h6 by blast
  have c7: "(find_root (finalForest exampleArgLimit exampleHostname inputFunded) ''a1'' = find_root (finalForest exampleArgLimit exampleHostname inputFunded) ''b1'')
     = (find_root (forestBeforeFunders exampleArgLimit exampleHostname inputFunded) ''a1'' = find_root (forestBeforeFunders exampleArgLimit exampleHostname inputFunded) ''b1'')" using F1 h7 h3 h3b by blast
  have c8: "\<exists>w1 \<in> fundedKeys inputThroughC \<inter> (set (actors inputThroughC) \<union> fst ` set (handleStemByActor inputThroughC)).
    \<exists>w2 \<in> fundedKeys inputThroughC \<inter> (set (actors inputThroughC) \<union> fst ` set (handleStemByActor inputThroughC)).
       find_root (forestBeforeFunders exampleArgLimit exampleHostname inputThroughC) walletLower = find_root (forestBeforeFunders exampleArgLimit exampleHostname inputThroughC) w1 \<and>
       find_root (forestBeforeFunders exampleArgLimit exampleHostname inputThroughC) walletB = find_root (forestBeforeFunders exampleArgLimit exampleHostname inputThroughC) w2" using C g1 g2 g3 g4 by blast
  show ?thesis
    using wmF wmC h2 h3 h3b h4 h5 h6 h7 g1 g2 g3 g4 c1 c2 c3 c4 c5 c6 c7 c8 by blast
qed

end
